theory Spec2Isabelle
  imports Complex_Main "HOL-Library.Product_Lexorder"
begin

section \<open>The MPF clock (src/mpf/core/clock.py)\<close>

text \<open>
  Times are Python floats in the source. The clock is modelled over the real numbers,
  without rounding; where a claim depends on the rounding of the repeated addition of a
  period, the bookkeeping of an event takes the addition as a parameter, and the addition
  of double-precision numbers is modelled below. A \<open>ClockEvent\<close> object is addressed by its \<open>id\<close>, the
  number it draws from the class-wide counter at construction: the store \<open>events\<close> maps
  an id to the object's fields, and every reference to an event (in \<open>ordered_events\<close>, in
  the frame callback queue) is that id.

  A callable is named by a number. What a callable does when it is invoked is given by a
  program: it sees its argument and the clock, and answers with the calls it makes on the
  clock's interface and with its return value. An exception raised by a callable is not
  modelled.

  Of \<open>ClockBase\<close> the model leaves out \<open>unschedule\<close> by callable (a loop of
  \<open>cancel\<close> calls), \<open>tick_draw\<close>, the frame-rate getters, the registration of
  sockets, and the readiness callbacks that \<open>select\<close> triggers during the wait.
\<close>

type_synonym cbid = nat

datatype pyval = PyNone | PyTrue | PyFalse | PyInt int

text \<open>
  The fields \<open>callback\<close> and \<open>weak_callback\<close> of an event: \<open>__init__\<close> stores the
  callable in \<open>callback\<close>; \<open>release\<close> moves it into a \<open>WeakMethod\<close> and clears
  \<open>callback\<close>. \<open>Strong f\<close> is the first state, \<open>WeakRef r\<close> the second, where
  \<open>r\<close> is what the weak reference resolves to now (\<open>None\<close> once the referent is dead).
\<close>

datatype cbref = Strong cbid | WeakRef "cbid option"

record clock_event =
  loop :: bool
  callback :: cbref
  timeout :: real
  is_triggered :: bool
  last_dt :: real
  next_event_time :: real
  last_event_time :: real
  ev_dt :: real
  priority :: int
  callback_cancelled :: bool

datatype loglevel = Debug | Warning

type_synonym frame_entry = "real \<times> int \<times> nat \<times> nat"

record clock =
  frametime :: real
  last_tick :: real
  start_tick :: real
  last_fps_tick :: "real option"
  fps :: real
  rfps :: nat
  fps_counter :: nat
  rfps_counter :: nat
  frames :: nat
  frames_displayed :: nat
  ordered_events :: "nat list"
  frame_callbacks :: "frame_entry list"
  read_sockets :: "nat list"
  max_fps :: real
  max_iteration :: nat
  clock_log :: "loglevel list"
  counter :: nat
  events :: "nat \<Rightarrow> clock_event"

datatype action =
    ScheduleOnce cbid real int
  | ScheduleInterval cbid real int
  | CallEvent nat
  | CancelEvent nat

type_synonym prog = "cbid \<Rightarrow> real \<Rightarrow> clock \<Rightarrow> action list \<times> pyval"

datatype wait = NoWait | Usleep real | Select "nat list" real

subsection \<open>ClockEvent\<close>

definition upd_event :: "nat \<Rightarrow> (clock_event \<Rightarrow> clock_event) \<Rightarrow> clock \<Rightarrow> clock" where
  "upd_event e f c = c\<lparr>events := (events c)(e := f (events c e))\<rparr>"

definition remove_event :: "nat \<Rightarrow> clock \<Rightarrow> clock" where
  \<comment> \<open>\<open>ordered_events.remove(event)\<close> inside \<open>try ... except ValueError: pass\<close>\<close>
  "remove_event e c = c\<lparr>ordered_events := remove1 e (ordered_events c)\<rparr>"

definition ClockEvent_init ::
  "bool \<Rightarrow> cbid \<Rightarrow> real \<Rightarrow> real \<Rightarrow> int \<Rightarrow> bool \<Rightarrow> clock \<Rightarrow> nat \<times> clock" where
  "ClockEvent_init lp cb tmo starttime prio trigger c =
     (let i = counter c;
          ev = \<lparr>loop = lp, callback = Strong cb, timeout = tmo, is_triggered = trigger,
                last_dt = starttime, next_event_time = starttime + tmo,
                last_event_time = 0, ev_dt = 0, priority = prio,
                callback_cancelled = False\<rparr>;
          c1 = c\<lparr>counter := Suc i, events := (events c)(i := ev)\<rparr>
      in (i, if trigger then c1\<lparr>ordered_events := ordered_events c1 @ [i]\<rparr> else c1))"

definition get_time :: "clock \<Rightarrow> real" where
  "get_time c = last_tick c"

definition event_call :: "nat \<Rightarrow> clock \<Rightarrow> pyval \<times> clock" where
  \<comment> \<open>\<open>ClockEvent.__call__\<close>: the function ends without a \<open>return\<close> when the event is
      already triggered, so the call yields \<open>None\<close>\<close>
  "event_call e c =
     (if \<not> is_triggered (events c e)
      then (PyTrue,
            (upd_event e (\<lambda>ev. ev\<lparr>is_triggered := True, last_dt := get_time c\<rparr>) c)
              \<lparr>ordered_events := ordered_events c @ [e]\<rparr>)
      else (PyNone, c))"

definition get_callback :: "clock_event \<Rightarrow> cbid option" where
  "get_callback ev = (case callback ev of Strong f \<Rightarrow> Some f | WeakRef r \<Rightarrow> r)"

definition release :: "nat \<Rightarrow> clock \<Rightarrow> clock" where
  \<comment> \<open>\<open>weak_callback = WeakMethod(self.callback); callback = None\<close>. On an event
      released before, \<open>callback\<close> is already \<open>None\<close>: the new weak reference wraps
      \<open>None\<close> and the callable is lost\<close>
  "release e c =
     upd_event e (\<lambda>ev. ev\<lparr>callback := (case callback ev of Strong f \<Rightarrow> WeakRef (Some f)
                                          | WeakRef r \<Rightarrow> WeakRef None)\<rparr>) c"

definition referent_dies :: "nat \<Rightarrow> clock \<Rightarrow> clock" where
  \<comment> \<open>not a method of the clock: the object a weak reference points to is reclaimed\<close>
  "referent_dies e c =
     upd_event e (\<lambda>ev. ev\<lparr>callback := (case callback ev of Strong f \<Rightarrow> Strong f
                                          | WeakRef r \<Rightarrow> WeakRef None)\<rparr>) c"

definition cancel :: "nat \<Rightarrow> clock \<Rightarrow> clock" where
  "cancel e c =
     (let c1 = (if is_triggered (events c e)
                then remove_event e (upd_event e (\<lambda>ev. ev\<lparr>is_triggered := False\<rparr>) c)
                else c)
      in upd_event e (\<lambda>ev. ev\<lparr>callback_cancelled := True\<rparr>) c1)"

definition add_event_to_frame_callbacks :: "nat \<Rightarrow> clock \<Rightarrow> clock" where
  "add_event_to_frame_callbacks e c =
     c\<lparr>frame_callbacks := frame_callbacks c @
          [(last_event_time (events c e), - priority (events c e), e, e)]\<rparr>"

definition reschedule_with ::
  "(real \<Rightarrow> real \<Rightarrow> real) \<Rightarrow> real \<Rightarrow> clock_event \<Rightarrow> clock_event" where
  \<comment> \<open>the bookkeeping of \<open>ClockEvent.tick\<close> once the event is due; \<open>add\<close> is the
      addition that \<open>self._next_event_time += self.timeout\<close> performs\<close>
  "reschedule_with add curtime ev =
     (let ev1 = ev\<lparr>ev_dt := curtime - last_dt ev, last_dt := curtime\<rparr>
      in if timeout ev1 > 0
         then ev1\<lparr>last_event_time := next_event_time ev1,
                  next_event_time := add (next_event_time ev1) (timeout ev1)\<rparr>
         else ev1\<lparr>last_event_time := curtime, next_event_time := curtime\<rparr>)"

definition reschedule :: "real \<Rightarrow> clock_event \<Rightarrow> clock_event" where
  \<comment> \<open>the bookkeeping with the addition of the real numbers, as the clock model has it\<close>
  "reschedule curtime ev = reschedule_with (+) curtime ev"

definition event_tick :: "real \<Rightarrow> nat \<Rightarrow> clock \<Rightarrow> pyval \<times> clock" where
  \<comment> \<open>\<open>ClockEvent.tick(curtime, remove)\<close> with \<open>remove = ordered_events.remove\<close>\<close>
  "event_tick curtime e c =
     (if timeout (events c e) > 0 \<and> curtime < next_event_time (events c e)
      then (PyTrue, c)
      else
        let c1 = upd_event e (reschedule curtime) c
        in case get_callback (events c1 e) of
             None \<Rightarrow>
               (PyFalse, remove_event e (upd_event e (\<lambda>ev. ev\<lparr>is_triggered := False\<rparr>) c1))
           | Some f \<Rightarrow>
               let c2 = upd_event e (\<lambda>ev. ev\<lparr>callback_cancelled := False\<rparr>) c1;
                   c3 = add_event_to_frame_callbacks e c2
               in if \<not> loop (events c e)
                  then (PyNone,
                        remove_event e (upd_event e (\<lambda>ev. ev\<lparr>is_triggered := False\<rparr>) c3))
                  else (PyNone, c3))"

subsection \<open>ClockBase\<close>

definition ClockBase_init :: "real \<Rightarrow> real \<Rightarrow> nat \<Rightarrow> clock" where
  \<comment> \<open>\<open>ClockBase.__init__\<close>; \<open>now\<close> is what \<open>time()\<close> returns, \<open>cnt\<close> the state of the
      class-wide id counter\<close>
  "ClockBase_init mfps now cnt =
     \<lparr>frametime = 0.0001, last_tick = now, start_tick = now, last_fps_tick = None,
      fps = 0, rfps = 0, fps_counter = 0, rfps_counter = 0, frames = 0,
      frames_displayed = 0, ordered_events = [], frame_callbacks = [],
      read_sockets = [], max_fps = mfps, max_iteration = 10, clock_log = [Debug],
      counter = cnt, events = (\<lambda>_. \<lparr>loop = False, callback = WeakRef None, timeout = 0,
        is_triggered = False, last_dt = 0, next_event_time = 0, last_event_time = 0,
        ev_dt = 0, priority = 1, callback_cancelled = False\<rparr>)\<rparr>"

definition sort_events :: "clock \<Rightarrow> clock" where
  \<comment> \<open>\<open>ordered_events.sort(key=attrgetter("next_event_time"))\<close>, a stable sort\<close>
  "sort_events c =
     c\<lparr>ordered_events := sort_key (\<lambda>e. next_event_time (events c e)) (ordered_events c)\<rparr>"

definition get_next_event_time :: "clock \<Rightarrow> real option \<times> clock" where
  \<comment> \<open>\<open>None\<close> stands for the \<open>False\<close> the source returns when nothing is pending\<close>
  "get_next_event_time c =
     (if ordered_events c = [] then (None, c)
      else let c1 = sort_events c
           in (Some (next_event_time (events c1 (hd (ordered_events c1)))), c1))"

definition get_sleep_time :: "real \<Rightarrow> clock \<Rightarrow> real \<times> clock" where
  \<comment> \<open>\<open>if next_event_time:\<close> tests truthiness: \<open>False\<close> and the number 0 both fail it\<close>
  "get_sleep_time now c =
     (case get_next_event_time c of
        (None, c1) \<Rightarrow> (0, c1)
      | (Some t, c1) \<Rightarrow> if t \<noteq> 0 then (t - now, c1) else (0, c1))"

definition sleep_until_next_event :: "real \<Rightarrow> clock \<Rightarrow> wait \<times> clock" where
  \<comment> \<open>the wait the engine asks for: \<open>select\<close> on the registered sockets with a timeout, or
      \<open>usleep\<close> with a number of microseconds, or nothing. The readiness callbacks of the
      sockets belong to the platform drivers and are not part of the model.\<close>
  "sleep_until_next_event now c =
     (case get_sleep_time now c of
        (sleeptime, c1) \<Rightarrow>
          if read_sockets c1 \<noteq> []
          then (Select (read_sockets c1) (if sleeptime \<le> 0 then 0.00001 else sleeptime), c1)
          else if sleeptime > 0 then (Usleep (1000000 * sleeptime), c1)
          else (NoWait, c1))"

definition schedule_once :: "cbid \<Rightarrow> real \<Rightarrow> int \<Rightarrow> clock \<Rightarrow> nat \<times> clock" where
  \<comment> \<open>the argument is a callable by its type, so the \<open>ValueError\<close> branch does not arise\<close>
  "schedule_once cb tmo prio c =
     (case ClockEvent_init False cb tmo (last_tick c) prio True c of
        (e, c1) \<Rightarrow> (e, c1\<lparr>clock_log := clock_log c1 @ [Debug]\<rparr>))"

definition schedule_interval :: "cbid \<Rightarrow> real \<Rightarrow> int \<Rightarrow> clock \<Rightarrow> nat \<times> clock" where
  "schedule_interval cb tmo prio c =
     (case ClockEvent_init True cb tmo (last_tick c) prio True c of
        (e, c1) \<Rightarrow> (e, c1\<lparr>clock_log := clock_log c1 @ [Debug]\<rparr>))"

fun process_loop :: "nat list \<Rightarrow> clock \<Rightarrow> clock" where
  \<comment> \<open>the \<open>for\<close> loop of \<open>_process_events\<close> over the snapshot \<open>list(ordered_events)\<close>\<close>
  "process_loop [] c = c"
| "process_loop (e # es) c =
     (if next_event_time (events c e) > last_tick c then c
      else process_loop es
             (if \<not> callback_cancelled (events c e)
              then snd (event_tick (last_tick c) e c) else c))"

definition process_events :: "clock \<Rightarrow> clock" where
  "process_events c =
     (if ordered_events c = [] then c
      else let c1 = sort_events c in process_loop (ordered_events c1) c1)"

fun exec_action :: "action \<Rightarrow> clock \<Rightarrow> clock" where
  "exec_action (ScheduleOnce f t p) c = snd (schedule_once f t p c)"
| "exec_action (ScheduleInterval f t p) c = snd (schedule_interval f t p c)"
| "exec_action (CallEvent e) c = snd (event_call e c)"
| "exec_action (CancelEvent e) c = cancel e c"

definition exec_actions :: "action list \<Rightarrow> clock \<Rightarrow> clock" where
  "exec_actions acts c = fold exec_action acts c"

type_synonym invocation = "frame_entry \<times> cbid \<times> real"

definition entry_event :: "frame_entry \<Rightarrow> nat" where
  "entry_event en = snd (snd (snd en))"

definition dispatch_entry :: "prog \<Rightarrow> frame_entry \<Rightarrow> clock \<Rightarrow> invocation list \<times> clock" where
  \<comment> \<open>the body of the loop of \<open>_process_event_callbacks\<close>; the list holds the invocation
      made, if one was made\<close>
  "dispatch_entry p en c =
     (let e = entry_event en in
      if \<not> callback_cancelled (events c e)
      then (case get_callback (events c e) of
              Some f \<Rightarrow>
                (case p f (frametime c) c of
                   (acts, ret) \<Rightarrow>
                     let c1 = exec_actions acts c
                     in ([(en, f, frametime c)],
                         if loop (events c1 e) \<and> ret = PyFalse then cancel e c1 else c1))
            | None \<Rightarrow> ([], if loop (events c e) then cancel e c else c))
      else ([], c))"

fun dispatch :: "prog \<Rightarrow> frame_entry list \<Rightarrow> clock \<Rightarrow> invocation list \<times> clock" where
  "dispatch p [] c = ([], c)"
| "dispatch p (en # ens) c =
     (case dispatch_entry p en c of
        (tr, c1) \<Rightarrow> (case dispatch p ens c1 of (tr', c2) \<Rightarrow> (tr @ tr', c2)))"

definition process_event_callbacks :: "prog \<Rightarrow> clock \<Rightarrow> invocation list \<times> clock" where
  "process_event_callbacks p c =
     (case dispatch p (sort (frame_callbacks c)) c of
        (tr, c1) \<Rightarrow> (tr, c1\<lparr>frame_callbacks := []\<rparr>))"

definition advance_time :: "real \<Rightarrow> clock \<Rightarrow> clock" where
  \<comment> \<open>the time and frame-rate bookkeeping of \<open>ClockBase.tick\<close>\<close>
  "advance_time current c =
     (let c1 = c\<lparr>frametime := current - last_tick c, frames := frames c + 1,
                 fps_counter := fps_counter c + 1, last_tick := current\<rparr>
      in case last_fps_tick c1 of
           None \<Rightarrow> c1\<lparr>last_fps_tick := Some current\<rparr>
         | Some l \<Rightarrow>
             if current - l > 1
             then c1\<lparr>fps := real (fps_counter c1) / (current - l), rfps := rfps_counter c1,
                     last_fps_tick := Some current, fps_counter := 0, rfps_counter := 0\<rparr>
             else c1)"

definition tick :: "prog \<Rightarrow> real \<Rightarrow> real \<Rightarrow> clock \<Rightarrow> wait \<times> invocation list \<times> clock" where
  \<comment> \<open>\<open>ClockBase.tick\<close>: \<open>now\<close> is the time sampled before the wait, \<open>current\<close> the time
      sampled after it. The result holds the wait asked for, the callbacks invoked in
      order, and the clock; the value the source returns is \<open>frametime\<close> of that clock.\<close>
  "tick p now current c =
     (case sleep_until_next_event now c of
        (w, c1) \<Rightarrow>
          (case process_event_callbacks p (process_events (advance_time current c1)) of
             (tr, c2) \<Rightarrow> (w, tr, c2)))"

fun ticks :: "prog \<Rightarrow> (real \<times> real) list \<Rightarrow> clock \<Rightarrow> invocation list \<times> clock" where
  \<comment> \<open>a run of ticks, one for each pair of time samples\<close>
  "ticks p [] c = ([], c)"
| "ticks p ((now, current) # ts) c =
     (case tick p now current c of
        (w, tr, c1) \<Rightarrow> (case ticks p ts c1 of (tr', c2) \<Rightarrow> (tr @ tr', c2)))"

definition invoked_events :: "invocation list \<Rightarrow> nat list" where
  "invoked_events tr = map (\<lambda>i. entry_event (fst i)) tr"

fun event_ticks :: "real list \<Rightarrow> nat \<Rightarrow> clock \<Rightarrow> nat \<times> clock" where
  \<comment> \<open>\<open>ClockEvent.tick\<close> called on one event at each of the given times; the number counts
      the calls at which the event was due (the calls that did not return \<open>True\<close>)\<close>
  "event_ticks [] e c = (0, c)"
| "event_ticks (t # ts) e c =
     (case event_tick t e c of
        (r, c1) \<Rightarrow> (case event_ticks ts e c1 of
                      (n, c2) \<Rightarrow> ((if r = PyTrue then 0 else 1) + n, c2)))"

definition cancelled_handle :: "nat \<Rightarrow> clock \<Rightarrow> bool" where
  "cancelled_handle h c = (h < counter c \<and> callback_cancelled (events c h))"

definition clock0 :: clock where
  "clock0 = ClockBase_init 30 0 0"

definition scheduled :: "nat \<Rightarrow> clock \<Rightarrow> bool" where
  "scheduled e c =
     (e < counter c \<and> e \<in> set (ordered_events c) \<and> is_triggered (events c e) \<and>
      \<not> callback_cancelled (events c e))"

definition clock1 :: clock where
  "clock1 = snd (schedule_interval 7 1 1 clock0)"

definition stop_prog :: prog where
  "stop_prog f dt c = ([], PyFalse)"

text \<open>
  The wait phase as the specification words it: the earliest \<open>next_event_time\<close> over the
  pending events, and a sleep of exactly that deadline minus the current time when this is
  positive (\<open>usleep\<close> takes microseconds).
\<close>

definition earliest_deadline :: "clock \<Rightarrow> real option" where
  "earliest_deadline c =
     (if ordered_events c = [] then None
      else Some (Min ((\<lambda>e. next_event_time (events c e)) ` set (ordered_events c))))"

definition exact_wait :: "real \<Rightarrow> clock \<Rightarrow> wait" where
  "exact_wait now c =
     (case earliest_deadline c of
        None \<Rightarrow> NoWait
      | Some d \<Rightarrow> if d - now > 0 then Usleep (1000000 * (d - now)) else NoWait)"

definition clock_neg :: clock where
  "clock_neg = snd (schedule_once 7 1 1 (ClockBase_init 30 (- 1) 0))"


section \<open>The virtual-time loop (src/mpf/tests/loop.py)\<close>

text \<open>
  \<open>NextTimers\<close> keeps a set, for uniqueness, and a heap, for the closest deadline. The
  heap is Python's \<open>heapq\<close> on a list, which is not code of this repository; it is
  modelled by its contract: \<open>heappop\<close> removes and returns the smallest item. The model
  keeps the list sorted, which is one of the orders \<open>heapq\<close> admits. Of
  \<open>TimeTravelLoop\<close> the model has the time, the queue of ready handles and the timers;
  \<open>advance_to_next_timer\<close> is what \<open>_run_once\<close> does before it hands over to the
  loop of \<open>asyncio\<close>, and \<open>call_at\<close> is the override's own part of \<open>call_at\<close>.
\<close>

datatype py_error = IndexError | KeyError

record next_timers =
  timers_set :: "real set"
  timers_heap :: "real list"

definition NextTimers_init :: next_timers where
  "NextTimers_init = \<lparr>timers_set = {}, timers_heap = []\<rparr>"

definition heappush :: "real list \<Rightarrow> real \<Rightarrow> real list" where
  "heappush h x = insort x h"

definition heappop :: "real list \<Rightarrow> py_error + real \<times> real list" where
  "heappop h = (case h of [] \<Rightarrow> Inl IndexError | x # xs \<Rightarrow> Inr (x, xs))"

definition nt_add :: "real \<Rightarrow> next_timers \<Rightarrow> next_timers" where
  "nt_add when nt =
     (if when \<in> timers_set nt then nt
      else nt\<lparr>timers_set := insert when (timers_set nt),
              timers_heap := heappush (timers_heap nt) when\<rparr>)"

definition nt_is_empty :: "next_timers \<Rightarrow> bool" where
  "nt_is_empty nt = (timers_set nt = {})"

definition pop_closest :: "next_timers \<Rightarrow> py_error + real \<times> next_timers" where
  "pop_closest nt =
     (if nt_is_empty nt then Inl IndexError
      else case heappop (timers_heap nt) of
             Inl err \<Rightarrow> Inl err
           | Inr (when, h) \<Rightarrow>
               if when \<in> timers_set nt
               then Inr (when, nt\<lparr>timers_heap := h, timers_set := timers_set nt - {when}\<rparr>)
               else Inl KeyError)"

record time_travel_loop =
  loop_time :: real
  ready :: "nat list"
  timers :: next_timers

definition advance_to_next_timer :: "time_travel_loop \<Rightarrow> py_error + time_travel_loop" where
  "advance_to_next_timer l =
     (if length (ready l) = 0
      then (if \<not> nt_is_empty (timers l)
            then (case pop_closest (timers l) of
                    Inl err \<Rightarrow> Inl err
                  | Inr (when, nt) \<Rightarrow> Inr (l\<lparr>loop_time := when, timers := nt\<rparr>))
            else Inr l)
      else Inr l)"

definition call_at :: "real \<Rightarrow> time_travel_loop \<Rightarrow> time_travel_loop" where
  "call_at when l = l\<lparr>timers := nt_add when (timers l)\<rparr>"

definition set_time :: "real \<Rightarrow> time_travel_loop \<Rightarrow> time_travel_loop" where
  "set_time t l = l\<lparr>loop_time := t\<rparr>"

definition loop_advance_time :: "real \<Rightarrow> time_travel_loop \<Rightarrow> time_travel_loop" where
  \<comment> \<open>\<open>advance_time\<close> of the loop: \<open>if advance:\<close> skips the number 0\<close>
  "loop_advance_time advance l =
     (if advance \<noteq> 0 then l\<lparr>loop_time := loop_time l + advance\<rparr> else l)"

inductive nt_reachable :: "next_timers \<Rightarrow> bool" where
  init: "nt_reachable NextTimers_init"
| add: "nt_reachable nt \<Longrightarrow> nt_reachable (nt_add when nt)"
| pop: "nt_reachable nt \<Longrightarrow> pop_closest nt = Inr (when, nt') \<Longrightarrow> nt_reachable nt'"

definition nt_inv :: "next_timers \<Rightarrow> bool" where
  "nt_inv nt = (set (timers_heap nt) = timers_set nt \<and> sorted (timers_heap nt) \<and>
                distinct (timers_heap nt))"

definition loop0 :: time_travel_loop where
  "loop0 = call_at 3 (call_at 5 (call_at 3
             \<lparr>loop_time = 0, ready = [], timers = NextTimers_init\<rparr>))"

definition idle_prog :: prog where
  "idle_prog f dt c = ([], PyNone)"

definition rearm_prog :: prog where
  "rearm_prog f dt c = ([ScheduleOnce f (- 1) 1], PyNone)"

definition clock_late :: clock where
  "clock_late = snd (schedule_once 7 5 1 clock0)"

definition clock_before_frame :: clock where
  "clock_before_frame = snd (schedule_once 3 (- 1) 1 clock0)"

definition agree_on :: "nat \<Rightarrow> clock \<Rightarrow> clock \<Rightarrow> bool" where
  "agree_on h c c1 =
     (events c1 h = events c h \<and> last_tick c1 = last_tick c \<and> counter c1 = counter c \<and>
      filter (\<lambda>en. entry_event en = h) (frame_callbacks c1) =
        filter (\<lambda>en. entry_event en = h) (frame_callbacks c) \<and>
      (h \<in> set (ordered_events c1)) = (h \<in> set (ordered_events c)) \<and>
      (distinct (ordered_events c) \<longrightarrow> distinct (ordered_events c1)))"

definition due_selection :: "real \<Rightarrow> real \<Rightarrow> clock \<Rightarrow> clock" where
  \<comment> \<open>the clock when \<open>ClockBase.tick\<close> has run \<open>_process_events\<close> and is about to run
      \<open>_process_event_callbacks\<close>\<close>
  "due_selection now current c =
     process_events (advance_time current (snd (sleep_until_next_event now c)))"

definition clock_dead :: clock where
  "clock_dead = referent_dies 0 (release 0 (snd (schedule_once 7 0 1 clock0)))"

text \<open>
  The order of dispatch in terms of the events themselves. The fire time of an event that
  is due is the time it was scheduled for when its delay is positive, and the time of the
  tick otherwise; \<open>ClockEvent.tick\<close> stores it in \<open>_last_event_time\<close>, and
  \<open>add_event_to_frame_callbacks\<close> puts it first in the tuple it queues.
\<close>

definition fire_time :: "clock \<Rightarrow> real \<Rightarrow> nat \<Rightarrow> real" where
  "fire_time c current x =
     (if timeout (events c x) > 0 then next_event_time (events c x) else current)"

definition fires_before :: "clock \<Rightarrow> real \<Rightarrow> nat \<Rightarrow> nat \<Rightarrow> bool" where
  "fires_before c current a b =
     (fire_time c current a < fire_time c current b \<or>
      (fire_time c current a = fire_time c current b \<and>
       (priority (events c a) > priority (events c b) \<or>
        (priority (events c a) = priority (events c b) \<and> a < b))))"

definition entry_of :: "clock \<Rightarrow> real \<Rightarrow> nat \<Rightarrow> frame_entry" where
  "entry_of c current x = (fire_time c current x, - priority (events c x), x, x)"

definition queue_ok :: "clock \<Rightarrow> nat list \<Rightarrow> clock \<Rightarrow> bool" where
  "queue_ok c0 es c =
     (distinct es \<and> last_tick c = last_tick c0 \<and>
      (\<forall>x\<in>set es. events c x = events c0 x) \<and>
      distinct (map entry_event (frame_callbacks c)) \<and>
      (\<forall>en\<in>set (frame_callbacks c).
         entry_event en \<notin> set es \<and> en = entry_of c0 (last_tick c0) (entry_event en)))"

text \<open>
  Calling an event \<open>k\<close> times in a row, with the values the calls return.
\<close>

fun event_calls :: "nat \<Rightarrow> nat \<Rightarrow> clock \<Rightarrow> pyval list \<times> clock" where
  "event_calls 0 e c = ([], c)"
| "event_calls (Suc k) e c =
     (case event_call e c of
        (r, c1) \<Rightarrow> (case event_calls k e c1 of (rs, c2) \<Rightarrow> (r # rs, c2)))"

definition live :: "nat \<Rightarrow> cbid \<Rightarrow> clock \<Rightarrow> bool" where
  "live h f c =
     (h < counter c \<and> \<not> callback_cancelled (events c h) \<and> get_callback (events c h) = Some f)"

definition never_cancels :: "prog \<Rightarrow> nat \<Rightarrow> bool" where
  "never_cancels p h = (\<forall>g dt c. CancelEvent h \<notin> set (fst (p g dt c)))"

definition clock_abc :: clock where
  "clock_abc = snd (schedule_once 3 0 5 (snd (schedule_once 2 0 5 (snd (schedule_once 1 0 1 clock0)))))"

definition clock_trigger :: clock where
  "clock_trigger = snd (ClockEvent_init False 7 0 0 1 False clock0)"

text \<open>
  What holds of the pending list in every state the interface reaches: no event is in it
  twice, and every event in it exists and is marked as triggered.
\<close>

definition wf_clock :: "clock \<Rightarrow> bool" where
  "wf_clock c =
     (distinct (ordered_events c) \<and>
      (\<forall>e\<in>set (ordered_events c). e < counter c \<and> is_triggered (events c e)))"

definition calls_allocated :: "prog \<Rightarrow> bool" where
  "calls_allocated p = (\<forall>f dt c e. CallEvent e \<in> set (fst (p f dt c)) \<longrightarrow> e < counter c)"

section \<open>Double-precision addition\<close>

text \<open>
  A Python float is an IEEE 754 double. \<open>to_double x\<close> is the double nearest to the
  real number \<open>x\<close>, ties going to the even mantissa: the number is scaled until its
  mantissa has 53 bits (the exponent of the integer mantissa stays between -1074 and
  971, the bounds of the format), and the mantissa is rounded. The sum of two doubles is
  the double nearest to their exact sum. Overflow to infinity and NaN are outside the
  model.
\<close>

definition round_even :: "real \<Rightarrow> int" where
  "round_even x =
     (let f = \<lfloor>x\<rfloor>; r = x - of_int f
      in if r < 1 / 2 then f else if 1 / 2 < r then f + 1 else if even f then f else f + 1)"

function scale_down :: "real \<Rightarrow> int \<Rightarrow> real \<times> int" where
  "scale_down m e =
     (if 2 ^ 53 \<le> m \<and> e < 971 then scale_down (m / 2) (e + 1) else (m, e))"
  by pat_completeness auto
termination
  by (relation "measure (\<lambda>(m, e). nat (971 - e))") auto

function scale_up :: "real \<Rightarrow> int \<Rightarrow> real \<times> int" where
  "scale_up m e =
     (if m < 2 ^ 52 \<and> - 1074 < e then scale_up (m * 2) (e - 1) else (m, e))"
  by pat_completeness auto
termination
  by (relation "measure (\<lambda>(m, e). nat (e + 1074))") auto

declare scale_down.simps [simp del]
declare scale_up.simps [simp del]

definition pow2 :: "int \<Rightarrow> real" where
  "pow2 e = (if 0 \<le> e then 2 ^ nat e else 1 / 2 ^ nat (- e))"

definition to_double :: "real \<Rightarrow> real" where
  "to_double x =
     (if x = 0 then 0
      else case scale_down \<bar>x\<bar> 0 of
             (m1, e1) \<Rightarrow> (case scale_up m1 e1 of
                (m, e) \<Rightarrow> sgn x * of_int (round_even m) * pow2 e))"

definition double_add :: "real \<Rightarrow> real \<Rightarrow> real" where
  "double_add x y = to_double (x + y)"


text \<open>
  The times of one repeating event, with \<open>add\<close> for the addition of the machine:
  \<open>interval_event\<close> holds the fields that \<open>ClockEvent.__init__\<close> sets for
  \<open>schedule_interval\<close> (\<open>starttime + timeout\<close>), \<open>tick_times\<close> is the due test
  and the bookkeeping of \<open>ClockEvent.tick\<close>, and \<open>tick_times_run\<close> calls it at each
  time of a list and counts the firings.
\<close>

definition interval_event ::
  "(real \<Rightarrow> real \<Rightarrow> real) \<Rightarrow> cbid \<Rightarrow> real \<Rightarrow> real \<Rightarrow> int \<Rightarrow> clock_event" where
  "interval_event add cb tmo starttime prio =
     \<lparr>loop = True, callback = Strong cb, timeout = tmo, is_triggered = True,
      last_dt = starttime, next_event_time = add starttime tmo,
      last_event_time = 0, ev_dt = 0, priority = prio, callback_cancelled = False\<rparr>"

definition tick_times ::
  "(real \<Rightarrow> real \<Rightarrow> real) \<Rightarrow> real \<Rightarrow> clock_event \<Rightarrow> bool \<times> clock_event" where
  "tick_times add curtime ev =
     (if timeout ev > 0 \<and> curtime < next_event_time ev then (False, ev)
      else (True, reschedule_with add curtime ev))"

fun tick_times_run ::
  "(real \<Rightarrow> real \<Rightarrow> real) \<Rightarrow> real list \<Rightarrow> clock_event \<Rightarrow> nat \<times> clock_event" where
  "tick_times_run add [] ev = (0, ev)"
| "tick_times_run add (t # ts) ev =
     (case tick_times add t ev of
        (fired, ev1) \<Rightarrow> (case tick_times_run add ts ev1 of
                          (n, ev2) \<Rightarrow> ((if fired then 1 else 0) + n, ev2)))"

definition double_tenth_event :: clock_event where
  "double_tenth_event = interval_event double_add 7 (to_double (1 / 10)) 0 1"

definition clock_retrigger :: clock where
  "clock_retrigger = snd (event_calls 3 0 (snd (ticks idle_prog [(0, 5), (5, 6)] clock_late)))"

definition clock_retired :: clock where
  "clock_retired = snd (ticks idle_prog [(0, 1)] (snd (schedule_once 7 0 1 clock0)))"

section \<open>Properties of the clock\<close>

subsection \<open>Repeating events do not drift\<close>

lemma event_tick_next:
  assumes "0 < timeout (events c h)" and "event_tick t h c = (r, c1)"
  shows "timeout (events c1 h) = timeout (events c h) \<and>
         next_event_time (events c1 h) =
           next_event_time (events c h) + (if r = PyTrue then 0 else timeout (events c h))"
  using assms
  by (auto simp: event_tick_def upd_event_def remove_event_def reschedule_def reschedule_with_def Let_def
        add_event_to_frame_callbacks_def split: if_splits option.splits)

lemma event_ticks_next:
  assumes "0 < timeout (events c h)" and "event_ticks ts h c = (n, c')"
  shows "timeout (events c' h) = timeout (events c h) \<and>
         next_event_time (events c' h) = next_event_time (events c h) + real n * timeout (events c h)"
  using assms
proof (induction ts arbitrary: c n c')
  case Nil
  then show ?case by simp
next
  case (Cons t ts)
  obtain r c1 where s: "event_tick t h c = (r, c1)" by (cases "event_tick t h c")
  obtain m c2 where r: "event_ticks ts h c1 = (m, c2)" by (cases "event_ticks ts h c1")
  from event_tick_next[OF Cons.prems(1) s] have
    t1: "timeout (events c1 h) = timeout (events c h)" and
    n1: "next_event_time (events c1 h) =
           next_event_time (events c h) + (if r = PyTrue then 0 else timeout (events c h))"
    by simp_all
  have pos: "0 < timeout (events c1 h)" using t1 Cons.prems(1) by simp
  from Cons.IH[OF pos r] have
    t2: "timeout (events c2 h) = timeout (events c1 h)" and
    n2: "next_event_time (events c2 h) = next_event_time (events c1 h) + real m * timeout (events c1 h)"
    by simp_all
  from Cons.prems(2) s r have "c' = c2" "n = (if r = PyTrue then 0 else 1) + m" by simp_all
  then show ?case using t1 t2 n1 n2 by (simp add: algebra_simps)
qed

text \<open>
  In the clock model, whose addition is exact: a repeating event scheduled with period
  \<open>T > 0\<close> when the clock's time is \<open>t0\<close> has, after the \<open>n\<close>-th call of
  \<open>ClockEvent.tick\<close> that finds it due, \<open>next_event_time = t0 + (n + 1) * T\<close>,
  whatever the times passed to these calls are.
\<close>

lemma interval_no_drift:
  assumes "0 < T" and "schedule_interval f T p c = (h, c1)" and "event_ticks ts h c1 = (n, c2)"
  shows "next_event_time (events c2 h) = last_tick c + (real n + 1) * T"
proof -
  from assms(2) have "timeout (events c1 h) = T" "next_event_time (events c1 h) = last_tick c + T"
    by (auto simp: schedule_interval_def ClockEvent_init_def Let_def)
  with event_ticks_next[of c1 h ts n c2] assms show ?thesis by (simp add: algebra_simps)
qed


lemma no_drift_run_count: "fst (event_ticks [0.7, 1.7, 1.75, 3] 0 (snd (schedule_interval 7 (1/2) 1 clock0))) = 4"
  by code_simp

lemma no_drift_run_handle: "fst (schedule_interval 7 (1/2) 1 clock0) = 0"
  by code_simp

lemma interval_no_drift_example:
  "next_event_time (events (snd (event_ticks [0.7, 1.7, 1.75, 3] 0
      (snd (schedule_interval 7 (1/2) 1 clock0)))) 0) = 5 / 2"
proof -
  have a: "(0::real) < 1 / 2" by simp
  have b: "schedule_interval 7 (1/2) 1 clock0 = (0, snd (schedule_interval 7 (1/2) 1 clock0))"
    using no_drift_run_handle by (metis prod.collapse)
  have c: "event_ticks [0.7, 1.7, 1.75, 3] 0 (snd (schedule_interval 7 (1/2) 1 clock0)) =
     (4, snd (event_ticks [0.7, 1.7, 1.75, 3] 0 (snd (schedule_interval 7 (1/2) 1 clock0))))"
    using no_drift_run_count by (metis prod.collapse)
  have "last_tick clock0 = 0" by (simp add: clock0_def ClockBase_init_def)
  with interval_no_drift[OF a b c] show ?thesis by simp
qed

subsection \<open>Repeated addition in double precision\<close>

lemma scale_up_steps:
  "2 ^ 52 \<le> m * 2 ^ j \<Longrightarrow> m * 2 ^ j < 2 ^ 53 \<Longrightarrow> - 1074 < e - int j \<Longrightarrow>
     scale_up m e = (m * 2 ^ j, e - int j)"
proof (induction j arbitrary: m e)
  case 0
  then show ?case by (simp add: scale_up.simps[of m e])
next
  case (Suc j)
  have "(2::real) ^ j \<ge> 1" by simp
  from Suc.prems(2) have "m * 2 ^ j * 2 < 2 ^ 52 * 2" by (simp add: mult.assoc mult.commute)
  then have "m * 2 ^ j < 2 ^ 52" by simp
  moreover have "m \<le> m * 2 ^ j"
  proof -
    from Suc.prems(1) have "0 < m * 2 ^ Suc j" by (simp add: less_le_trans[of 0 "2 ^ 52"])
    then have "0 < m" by (simp add: zero_less_mult_iff)
    with \<open>(2::real) ^ j \<ge> 1\<close> show ?thesis by simp
  qed
  ultimately have lt: "m < 2 ^ 52" by simp
  from Suc.prems(3) have e: "- 1074 < e" by simp
  have 1: "2 ^ 52 \<le> (m * 2) * 2 ^ j" using Suc.prems(1) by (simp add: mult.assoc mult.commute)
  have 2: "(m * 2) * 2 ^ j < 2 ^ 53" using Suc.prems(2) by (simp add: mult.assoc mult.commute)
  have 3: "- 1074 < (e - 1) - int j" using Suc.prems(3) by simp
  from Suc.IH[OF 1 2 3] lt e show ?case
    by (simp add: scale_up.simps[of m e] mult.assoc mult.commute)
qed

lemma to_double_scaled:
  assumes "0 < x" and "2 ^ 52 \<le> x * 2 ^ j" and "x * 2 ^ j < 2 ^ 53" and "j < 1074"
  shows "to_double x = of_int (round_even (x * 2 ^ j)) / 2 ^ j"
proof -
  have "(2::real) ^ j \<ge> 1" by simp
  with assms(1) have "x \<le> x * 2 ^ j" by simp
  with assms(3) have "x < 2 ^ 53" by simp
  then have d: "scale_down \<bar>x\<bar> 0 = (x, 0)" using assms(1) by (simp add: scale_down.simps[of x 0])
  have "- 1074 < 0 - int j" using assms(4) by simp
  from scale_up_steps[OF assms(2,3) this] have u: "scale_up x 0 = (x * 2 ^ j, - int j)" by simp
  show ?thesis
  proof (cases "j = 0")
    case True
    with d u assms(1) show ?thesis by (simp add: to_double_def pow2_def)
  next
    case False
    with d u assms(1) show ?thesis by (simp add: to_double_def pow2_def)
  qed
qed

lemma double_tenth: "to_double (1 / 10) = 3602879701896397 / 36028797018963968"
  using to_double_scaled[of "1 / 10" 56] by (simp add: round_even_def)

lemma add_step_0: "double_add (0) (3602879701896397 / 36028797018963968) = 3602879701896397 / 36028797018963968"
  using to_double_scaled[of "0 + 3602879701896397 / 36028797018963968" 56]
  by (simp add: double_add_def round_even_def)

lemma add_step_1: "double_add (3602879701896397 / 36028797018963968) (3602879701896397 / 36028797018963968) = 3602879701896397 / 18014398509481984"
  using to_double_scaled[of "3602879701896397 / 36028797018963968 + 3602879701896397 / 36028797018963968" 55]
  by (simp add: double_add_def round_even_def)

lemma add_step_2: "double_add (3602879701896397 / 18014398509481984) (3602879701896397 / 36028797018963968) = 1351079888211149 / 4503599627370496"
  using to_double_scaled[of "3602879701896397 / 18014398509481984 + 3602879701896397 / 36028797018963968" 54]
  by (simp add: double_add_def round_even_def)

lemma add_step_3: "double_add (1351079888211149 / 4503599627370496) (3602879701896397 / 36028797018963968) = 3602879701896397 / 9007199254740992"
  using to_double_scaled[of "1351079888211149 / 4503599627370496 + 3602879701896397 / 36028797018963968" 54]
  by (simp add: double_add_def round_even_def)

lemma add_step_4: "double_add (3602879701896397 / 9007199254740992) (3602879701896397 / 36028797018963968) = 1 / 2"
  using to_double_scaled[of "3602879701896397 / 9007199254740992 + 3602879701896397 / 36028797018963968" 53]
  by (simp add: double_add_def round_even_def)

lemma add_step_5: "double_add (1 / 2) (3602879701896397 / 36028797018963968) = 5404319552844595 / 9007199254740992"
  using to_double_scaled[of "1 / 2 + 3602879701896397 / 36028797018963968" 53]
  by (simp add: double_add_def round_even_def)

lemma add_step_6: "double_add (5404319552844595 / 9007199254740992) (3602879701896397 / 36028797018963968) = 3152519739159347 / 4503599627370496"
  using to_double_scaled[of "5404319552844595 / 9007199254740992 + 3602879701896397 / 36028797018963968" 53]
  by (simp add: double_add_def round_even_def)

lemma add_step_7: "double_add (3152519739159347 / 4503599627370496) (3602879701896397 / 36028797018963968) = 7205759403792793 / 9007199254740992"
  using to_double_scaled[of "3152519739159347 / 4503599627370496 + 3602879701896397 / 36028797018963968" 53]
  by (simp add: double_add_def round_even_def)

lemma add_step_8: "double_add (7205759403792793 / 9007199254740992) (3602879701896397 / 36028797018963968) = 2026619832316723 / 2251799813685248"
  using to_double_scaled[of "7205759403792793 / 9007199254740992 + 3602879701896397 / 36028797018963968" 53]
  by (simp add: double_add_def round_even_def)

lemma add_step_9: "double_add (2026619832316723 / 2251799813685248) (3602879701896397 / 36028797018963968) = 9007199254740991 / 9007199254740992"
  using to_double_scaled[of "2026619832316723 / 2251799813685248 + 3602879701896397 / 36028797018963968" 53]
  by (simp add: double_add_def round_even_def)

lemma add_step_10: "double_add (9007199254740991 / 9007199254740992) (3602879701896397 / 36028797018963968) = 4953959590107545 / 4503599627370496"
  using to_double_scaled[of "9007199254740991 / 9007199254740992 + 3602879701896397 / 36028797018963968" 52]
  by (simp add: double_add_def round_even_def)


lemma schedule_interval_event:
  "events (snd (schedule_interval f T p c)) (fst (schedule_interval f T p c)) =
     interval_event (+) f T (last_tick c) p"
  by (simp add: schedule_interval_def ClockEvent_init_def Let_def interval_event_def)

lemma event_tick_times:
  "next_event_time (events (snd (event_tick t e c)) e) =
     next_event_time (snd (tick_times (+) t (events c e))) \<and>
   timeout (events (snd (event_tick t e c)) e) = timeout (snd (tick_times (+) t (events c e))) \<and>
   (fst (event_tick t e c) \<noteq> PyTrue) = fst (tick_times (+) t (events c e))"
  by (simp add: event_tick_def tick_times_def upd_event_def remove_event_def Let_def
        add_event_to_frame_callbacks_def reschedule_def reschedule_with_def
        split: option.splits)

lemma tick_times_next:
  assumes "0 < timeout ev" and "tick_times add t ev = (fired, ev1)"
  shows "timeout ev1 = timeout ev \<and>
         next_event_time ev1 =
           (if fired then add (next_event_time ev) (timeout ev) else next_event_time ev)"
  using assms by (auto simp: tick_times_def reschedule_with_def Let_def split: if_splits)

lemma tick_times_run_next:
  assumes "0 < timeout ev" and "tick_times_run add ts ev = (n, ev')"
  shows "timeout ev' = timeout ev \<and>
         next_event_time ev' = ((\<lambda>x. add x (timeout ev)) ^^ n) (next_event_time ev)"
  using assms
proof (induction ts arbitrary: ev n ev')
  case Nil
  then show ?case by simp
next
  case (Cons t ts)
  obtain fired ev1 where s: "tick_times add t ev = (fired, ev1)"
    by (cases "tick_times add t ev")
  obtain m ev2 where r: "tick_times_run add ts ev1 = (m, ev2)"
    by (cases "tick_times_run add ts ev1")
  from tick_times_next[OF Cons.prems(1) s] have
    t1: "timeout ev1 = timeout ev" and
    n1: "next_event_time ev1 =
           (if fired then add (next_event_time ev) (timeout ev) else next_event_time ev)"
    by simp_all
  have pos: "0 < timeout ev1" using t1 Cons.prems(1) by simp
  from Cons.IH[OF pos r] t1 have
    t2: "timeout ev2 = timeout ev" and
    n2: "next_event_time ev2 = ((\<lambda>x. add x (timeout ev)) ^^ m) (next_event_time ev1)"
    by simp_all
  from Cons.prems(2) s r have e: "ev' = ev2" and n: "n = (if fired then 1 else 0) + m"
    by simp_all
  show ?case
  proof (cases fired)
    case True
    with n have "n = Suc m" by simp
    have "((\<lambda>x. add x (timeout ev)) ^^ m) (add (next_event_time ev) (timeout ev)) =
          add (((\<lambda>x. add x (timeout ev)) ^^ m) (next_event_time ev)) (timeout ev)"
      using funpow_swap1[of "\<lambda>x. add x (timeout ev)" m "next_event_time ev"] by simp
    with e t2 n2 n1 True \<open>n = Suc m\<close> show ?thesis by simp
  next
    case False
    with n have "n = m" by simp
    with e t2 n2 n1 False show ?thesis by simp
  qed
qed

text \<open>
  Claim C2, as amended. A repeating event created with period \<open>T > 0\<close> at time
  \<open>t0\<close> has, after its \<open>n\<close>-th firing, the \<open>next_event_time\<close> that results from
  adding \<open>T\<close> to \<open>t0\<close> \<open>n + 1\<close> times with the addition of the machine, whatever
  the times of the calls are: each firing adds \<open>T\<close> to the time scheduled before, never
  to the time of the call. With an exact addition this is \<open>t0 + (n + 1) * T\<close>.
\<close>

theorem interval_repeated_addition:
  assumes "0 < T" and "tick_times_run add ts (interval_event add f T t0 p) = (n, ev')"
  shows "next_event_time ev' = ((\<lambda>x. add x T) ^^ n) (add t0 T) \<and>
         (add = (+) \<longrightarrow> next_event_time ev' = t0 + (real n + 1) * T)"
proof -
  have t: "timeout (interval_event add f T t0 p) = T" and
    s: "next_event_time (interval_event add f T t0 p) = add t0 T"
    by (simp_all add: interval_event_def)
  from tick_times_run_next[OF _ assms(2)] assms(1) t s
  have 1: "next_event_time ev' = ((\<lambda>x. add x T) ^^ n) (add t0 T)" by simp
  have "((\<lambda>x. x + T) ^^ k) y = y + real k * T" for k y
    by (induction k) (simp_all add: algebra_simps)
  with 1 show ?thesis by (auto simp: algebra_simps)
qed

lemma double_tenth_run:
  "tick_times_run double_add [2, 3, 4, 5, 6, 7, 8, 9, 10, 11] double_tenth_event =
     (10, snd (tick_times_run double_add [2, 3, 4, 5, 6, 7, 8, 9, 10, 11] double_tenth_event)) \<and>
   next_event_time
     (snd (tick_times_run double_add [2, 3, 4, 5, 6, 7, 8, 9, 10, 11] double_tenth_event)) =
     4953959590107545 / 4503599627370496"
  by (simp add: double_tenth_event_def interval_event_def tick_times_def reschedule_with_def
        Let_def double_tenth add_step_0 add_step_1 add_step_2 add_step_3 add_step_4
        add_step_5 add_step_6 add_step_7 add_step_8 add_step_9 add_step_10)

theorem interval_repeated_addition_witness:
  "next_event_time
     (snd (tick_times_run double_add [2, 3, 4, 5, 6, 7, 8, 9, 10, 11] double_tenth_event)) =
     ((\<lambda>x. double_add x (to_double (1 / 10))) ^^ 10) (double_add 0 (to_double (1 / 10)))"
proof -
  have pos: "0 < to_double (1 / 10)" by (simp add: double_tenth)
  have run: "tick_times_run double_add [2, 3, 4, 5, 6, 7, 8, 9, 10, 11]
               (interval_event double_add 7 (to_double (1 / 10)) 0 1) =
             (10, snd (tick_times_run double_add [2, 3, 4, 5, 6, 7, 8, 9, 10, 11]
                         double_tenth_event))"
    using double_tenth_run by (simp add: double_tenth_event_def)
  from interval_repeated_addition[OF pos run] show ?thesis by simp
qed

text \<open>
  With doubles the claim as it is stated fails. The period is the double nearest to
  \<open>1/10\<close>, the baseline is 0, and the event fires ten times: \<open>next_event_time\<close> is
  \<open>4953959590107545 / 2^52\<close>, which Python prints as \<open>1.0999999999999999\<close>. It is
  neither \<open>t0 + (n + 1) * T\<close> over the real numbers nor that expression computed in
  doubles, which is \<open>1.1\<close>.
\<close>

theorem interval_drifts_in_doubles:
  "fst (tick_times_run double_add [2, 3, 4, 5, 6, 7, 8, 9, 10, 11] double_tenth_event) = 10 \<and>
   next_event_time
     (snd (tick_times_run double_add [2, 3, 4, 5, 6, 7, 8, 9, 10, 11] double_tenth_event)) =
     4953959590107545 / 4503599627370496 \<and>
   next_event_time
     (snd (tick_times_run double_add [2, 3, 4, 5, 6, 7, 8, 9, 10, 11] double_tenth_event)) \<noteq>
     0 + (10 + 1) * to_double (1 / 10) \<and>
   next_event_time
     (snd (tick_times_run double_add [2, 3, 4, 5, 6, 7, 8, 9, 10, 11] double_tenth_event)) \<noteq>
     double_add 0 (to_double ((10 + 1) * to_double (1 / 10)))"
proof -
  let ?r = "tick_times_run double_add [2, 3, 4, 5, 6, 7, 8, 9, 10, 11] double_tenth_event"
  from double_tenth_run have c: "fst ?r = 10" by (metis fst_conv)
  from double_tenth_run have n: "next_event_time (snd ?r) = 4953959590107545 / 4503599627370496"
    by (rule conjunct2)
  have d1: "(4953959590107545 / 4503599627370496 :: real) \<noteq> 0 + (10 + 1) * to_double (1 / 10)"
    by (simp add: double_tenth)
  have e: "to_double (39631676720860367 / 36028797018963968) =
             2476979795053773 / 2251799813685248"
    using to_double_scaled[of "39631676720860367 / 36028797018963968" 52]
    by (simp add: round_even_def)
  have a: "double_add 0 (2476979795053773 / 2251799813685248) =
             2476979795053773 / 2251799813685248"
    using to_double_scaled[of "2476979795053773 / 2251799813685248" 52]
    by (simp add: double_add_def round_even_def)
  have d2: "(4953959590107545 / 4503599627370496 :: real) \<noteq>
              double_add 0 (to_double ((10 + 1) * to_double (1 / 10)))"
    by (simp add: double_tenth e a)
  show ?thesis unfolding n c using d1 d2 by blast
qed

subsection \<open>A cancelled event is never invoked\<close>

lemma cancelled_exec_action:
  "cancelled_handle h c \<Longrightarrow> cancelled_handle h (exec_action a c)"
  by (cases a)
     (auto simp: cancelled_handle_def schedule_once_def schedule_interval_def
        ClockEvent_init_def Let_def event_call_def upd_event_def cancel_def remove_event_def
        get_time_def)

lemma cancelled_exec_actions:
  "cancelled_handle h c \<Longrightarrow> cancelled_handle h (exec_actions acts c)"
  unfolding exec_actions_def
  by (induction acts arbitrary: c) (auto intro: cancelled_exec_action)

lemma cancelled_cancel: "cancelled_handle h c \<Longrightarrow> cancelled_handle h (cancel e c)"
  by (auto simp: cancelled_handle_def cancel_def upd_event_def remove_event_def Let_def)

lemma cancelled_event_tick:
  "cancelled_handle h c \<Longrightarrow> e \<noteq> h \<Longrightarrow> cancelled_handle h (snd (event_tick t e c))"
  by (auto simp: cancelled_handle_def event_tick_def upd_event_def remove_event_def Let_def
        add_event_to_frame_callbacks_def split: option.splits)

lemma cancelled_process_loop:
  "cancelled_handle h c \<Longrightarrow> cancelled_handle h (process_loop es c)"
proof (induction es arbitrary: c)
  case Nil
  then show ?case by simp
next
  case (Cons e es)
  show ?case
  proof (cases "e = h")
    case True
    with Cons show ?thesis by (auto simp: cancelled_handle_def)
  next
    case False
    with Cons show ?thesis by (auto intro: cancelled_event_tick)
  qed
qed

lemma cancelled_sort_events: "cancelled_handle h (sort_events c) = cancelled_handle h c"
  by (simp add: cancelled_handle_def sort_events_def)

lemma cancelled_process_events:
  "cancelled_handle h c \<Longrightarrow> cancelled_handle h (process_events c)"
  by (simp add: process_events_def Let_def cancelled_process_loop cancelled_sort_events)

lemma cancelled_dispatch_entry:
  assumes "cancelled_handle h c"
  shows "cancelled_handle h (snd (dispatch_entry p en c)) \<and>
         h \<notin> set (invoked_events (fst (dispatch_entry p en c)))"
proof (cases "entry_event en = h")
  case True
  with assms show ?thesis
    by (simp add: dispatch_entry_def cancelled_handle_def invoked_events_def)
next
  case False
  with assms show ?thesis
    by (auto simp: dispatch_entry_def Let_def invoked_events_def
          split: option.splits prod.splits
          intro: cancelled_exec_actions cancelled_cancel)
qed

lemma cancelled_dispatch:
  "cancelled_handle h c \<Longrightarrow>
     cancelled_handle h (snd (dispatch p ens c)) \<and>
     h \<notin> set (invoked_events (fst (dispatch p ens c)))"
proof (induction ens arbitrary: c)
  case Nil
  then show ?case by (simp add: invoked_events_def)
next
  case (Cons en ens)
  obtain tr c1 where d: "dispatch_entry p en c = (tr, c1)" by (cases "dispatch_entry p en c")
  obtain tr' c2 where r: "dispatch p ens c1 = (tr', c2)" by (cases "dispatch p ens c1")
  from cancelled_dispatch_entry[OF Cons.prems, of p en] d
  have 1: "cancelled_handle h c1" "h \<notin> set (invoked_events tr)" by simp_all
  from Cons.IH[OF 1(1)] r have 2: "cancelled_handle h c2" "h \<notin> set (invoked_events tr')"
    by simp_all
  from d r 1 2 show ?case by (simp add: invoked_events_def)
qed

lemma cancelled_advance_time: "cancelled_handle h (advance_time t c) = cancelled_handle h c"
  by (simp add: cancelled_handle_def advance_time_def Let_def split: option.splits)

lemma cancelled_sleep:
  "cancelled_handle h (snd (sleep_until_next_event now c)) = cancelled_handle h c"
  by (simp add: cancelled_handle_def sleep_until_next_event_def get_sleep_time_def
        get_next_event_time_def sort_events_def Let_def split: prod.splits)

lemma cancelled_tick:
  assumes "cancelled_handle h c"
  shows "cancelled_handle h (snd (snd (tick p now current c))) \<and>
         h \<notin> set (invoked_events (fst (snd (tick p now current c))))"
proof -
  obtain w c1 where s: "sleep_until_next_event now c = (w, c1)"
    by (cases "sleep_until_next_event now c")
  let ?c2 = "process_events (advance_time current c1)"
  obtain tr c3 where d: "dispatch p (sort (frame_callbacks ?c2)) ?c2 = (tr, c3)"
    by (cases "dispatch p (sort (frame_callbacks ?c2)) ?c2")
  from s assms cancelled_sleep[of h now c] have "cancelled_handle h c1" by simp
  then have "cancelled_handle h ?c2"
    by (simp add: cancelled_process_events cancelled_advance_time)
  from cancelled_dispatch[OF this, of p "sort (frame_callbacks ?c2)"] d
  have "cancelled_handle h c3" "h \<notin> set (invoked_events tr)" by simp_all
  with s d show ?thesis
    by (simp add: tick_def process_event_callbacks_def cancelled_handle_def)
qed

lemma cancelled_ticks:
  "cancelled_handle h c \<Longrightarrow>
     cancelled_handle h (snd (ticks p ts c)) \<and> h \<notin> set (invoked_events (fst (ticks p ts c)))"
proof (induction ts arbitrary: c)
  case Nil
  then show ?case by (simp add: invoked_events_def)
next
  case (Cons t ts)
  obtain now current where t: "t = (now, current)" by (cases t)
  obtain w tr c1 where s: "tick p now current c = (w, tr, c1)"
    by (cases "tick p now current c")
  obtain tr' c2 where r: "ticks p ts c1 = (tr', c2)" by (cases "ticks p ts c1")
  from cancelled_tick[OF Cons.prems, of p now current] s
  have 1: "cancelled_handle h c1" "h \<notin> set (invoked_events tr)" by simp_all
  from Cons.IH[OF 1(1)] r have 2: "cancelled_handle h c2" "h \<notin> set (invoked_events tr')"
    by simp_all
  from t s r 1 2 show ?case by (simp add: invoked_events_def)
qed

subsection \<open>A repeating event stops when its callback returns False\<close>

lemma exec_action_allocated:
  "e < counter c \<Longrightarrow>
     e < counter (exec_action a c) \<and> loop (events (exec_action a c) e) = loop (events c e)"
  by (cases a)
     (auto simp: schedule_once_def schedule_interval_def ClockEvent_init_def Let_def
        event_call_def upd_event_def cancel_def remove_event_def)

lemma exec_actions_allocated:
  "e < counter c \<Longrightarrow>
     e < counter (exec_actions acts c) \<and> loop (events (exec_actions acts c) e) = loop (events c e)"
  unfolding exec_actions_def
proof (induction acts arbitrary: c)
  case Nil
  then show ?case by simp
next
  case (Cons a acts)
  from exec_action_allocated[OF Cons.prems, of a] Cons.IH[of "exec_action a c"]
  show ?case by simp
qed

lemma exec_action_scheduled:
  "scheduled e c \<Longrightarrow> a \<noteq> CancelEvent e \<Longrightarrow> scheduled e (exec_action a c)"
  by (cases a)
     (auto simp: scheduled_def schedule_once_def schedule_interval_def ClockEvent_init_def
        Let_def event_call_def upd_event_def cancel_def remove_event_def)

lemma exec_actions_scheduled:
  "scheduled e c \<Longrightarrow> CancelEvent e \<notin> set acts \<Longrightarrow> scheduled e (exec_actions acts c)"
  unfolding exec_actions_def
proof (induction acts arbitrary: c)
  case Nil
  then show ?case by simp
next
  case (Cons a acts)
  then have "scheduled e (exec_action a c)" by (auto intro: exec_action_scheduled)
  with Cons show ?case by simp
qed

lemma cancel_cancelled: "h < counter c \<Longrightarrow> cancelled_handle h (cancel h c)"
  by (simp add: cancelled_handle_def cancel_def upd_event_def remove_event_def Let_def)

lemma cancel_not_triggered: "\<not> is_triggered (events (cancel h c) h)"
  by (simp add: cancel_def upd_event_def remove_event_def Let_def)

text \<open>
  Claim C6. When the dispatch loop invokes the callback of a repeating event and the
  callback returns exactly \<open>False\<close>, the event is cancelled right after the call
  (\<open>cancel\<close> runs on the state the callback left), and it is not invoked again, neither
  in the rest of this dispatch nor in any later tick. When the callback returns anything
  else the loop leaves the clock as the callback left it: an event that was scheduled and
  that the callback did not cancel is still scheduled.
\<close>

theorem stop_repeat:
  assumes "e < counter c" and "loop (events c e)" and "\<not> callback_cancelled (events c e)"
    and "get_callback (events c e) = Some f" and "entry_event en = e"
    and "p f (frametime c) c = (acts, ret)"
  shows "fst (dispatch_entry p en c) = [(en, f, frametime c)] \<and>
         (ret = PyFalse \<longrightarrow>
            snd (dispatch_entry p en c) = cancel e (exec_actions acts c) \<and>
            \<not> is_triggered (events (snd (dispatch_entry p en c)) e) \<and>
            callback_cancelled (events (snd (dispatch_entry p en c)) e) \<and>
            e \<notin> set (invoked_events (fst (dispatch p ens (snd (dispatch_entry p en c))))) \<and>
            e \<notin> set (invoked_events
                       (fst (ticks p ts (snd (dispatch p ens (snd (dispatch_entry p en c)))))))) \<and>
         (ret \<noteq> PyFalse \<longrightarrow>
            snd (dispatch_entry p en c) = exec_actions acts c \<and>
            (scheduled e c \<and> CancelEvent e \<notin> set acts \<longrightarrow>
               scheduled e (snd (dispatch_entry p en c))))"
proof -
  let ?c1 = "exec_actions acts c"
  from exec_actions_allocated[OF assms(1), of acts] assms(2)
  have al: "e < counter ?c1" and lp: "loop (events ?c1 e)" by simp_all
  have tr: "fst (dispatch_entry p en c) = [(en, f, frametime c)]"
    using assms by (simp add: dispatch_entry_def Let_def)
  show ?thesis
  proof (cases "ret = PyFalse")
    case True
    have st: "snd (dispatch_entry p en c) = cancel e ?c1"
      using assms lp True by (simp add: dispatch_entry_def Let_def)
    have ch: "cancelled_handle e (cancel e ?c1)" using al by (rule cancel_cancelled)
    from cancelled_dispatch[OF ch, of p ens]
    have d: "cancelled_handle e (snd (dispatch p ens (cancel e ?c1)))"
         "e \<notin> set (invoked_events (fst (dispatch p ens (cancel e ?c1))))" by simp_all
    from cancelled_ticks[OF d(1), of p ts]
    have "e \<notin> set (invoked_events (fst (ticks p ts (snd (dispatch p ens (cancel e ?c1))))))"
      by simp
    with tr st ch d True show ?thesis
      by (simp add: cancel_not_triggered cancelled_handle_def)
  next
    case False
    have st: "snd (dispatch_entry p en c) = ?c1"
      using assms False by (simp add: dispatch_entry_def Let_def)
    with tr False show ?thesis by (auto intro: exec_actions_scheduled)
  qed
qed

theorem stop_repeat_witness:
  "snd (dispatch_entry stop_prog (1, - 1, 0, 0) clock1) = cancel 0 (exec_actions [] clock1) \<and>
   callback_cancelled (events (snd (dispatch_entry stop_prog (1, - 1, 0, 0) clock1)) 0) \<and>
   0 \<notin> set (invoked_events (fst (ticks stop_prog [(1, 2), (2, 3)]
           (snd (dispatch stop_prog [] (snd (dispatch_entry stop_prog (1, - 1, 0, 0) clock1)))))))"
proof -
  have 1: "0 < counter clock1" by code_simp
  have 2: "loop (events clock1 0)" by code_simp
  have 3: "\<not> callback_cancelled (events clock1 0)" by code_simp
  have 4: "get_callback (events clock1 0) = Some 7" by code_simp
  have 5: "entry_event (1, - 1, 0, 0) = 0" by (simp add: entry_event_def)
  have 6: "stop_prog 7 (frametime clock1) clock1 = ([], PyFalse)" by (simp add: stop_prog_def)
  from stop_repeat[where p = stop_prog and ens = "[]" and ts = "[(1, 2), (2, 3)]", OF 1 2 3 4 5 6]
  show ?thesis by blast
qed


subsection \<open>Cancelling\<close>

text \<open>
  What holds of \<open>cancel\<close>. After it the callback of the event is not invoked in any
  later tick, whatever calls are made on the clock in between. \<open>cancel\<close> raises
  nothing; it leaves every other event, the order of the other pending events and the
  frame queue as they were. On an event already cancelled it changes nothing. On an event
  that is not pending it sets that event's \<open>callback_cancelled\<close> flag.
\<close>

lemma cancel_guarantee:
  assumes "h < counter c"
  shows "h \<notin> set (invoked_events (fst (ticks p ts (exec_actions acts (cancel h c))))) \<and>
         (\<forall>g. g \<noteq> h \<longrightarrow> events (cancel h c) g = events c g) \<and>
         filter (\<lambda>g. g \<noteq> h) (ordered_events (cancel h c)) =
           filter (\<lambda>g. g \<noteq> h) (ordered_events c) \<and>
         frame_callbacks (cancel h c) = frame_callbacks c \<and>
         (\<not> is_triggered (events c h) \<longrightarrow>
            cancel h c = upd_event h (\<lambda>ev. ev\<lparr>callback_cancelled := True\<rparr>) c) \<and>
         (\<not> is_triggered (events c h) \<and> callback_cancelled (events c h) \<longrightarrow> cancel h c = c)"
proof -
  have "cancelled_handle h (exec_actions acts (cancel h c))"
    using assms by (intro cancelled_exec_actions cancel_cancelled)
  from cancelled_ticks[OF this, of p ts]
  have 1: "h \<notin> set (invoked_events (fst (ticks p ts (exec_actions acts (cancel h c)))))"
    by simp
  have 2: "\<forall>g. g \<noteq> h \<longrightarrow> events (cancel h c) g = events c g"
    by (simp add: cancel_def upd_event_def remove_event_def Let_def)
  have rm: "filter (\<lambda>g. g \<noteq> h) (remove1 h xs) = filter (\<lambda>g. g \<noteq> h) xs" for xs :: "nat list"
    by (induction xs) auto
  have 3: "filter (\<lambda>g. g \<noteq> h) (ordered_events (cancel h c)) =
           filter (\<lambda>g. g \<noteq> h) (ordered_events c)"
    by (simp add: cancel_def upd_event_def remove_event_def Let_def rm)
  have 4: "frame_callbacks (cancel h c) = frame_callbacks c"
    by (simp add: cancel_def upd_event_def remove_event_def Let_def)
  have 5: "\<not> is_triggered (events c h) \<longrightarrow>
            cancel h c = upd_event h (\<lambda>ev. ev\<lparr>callback_cancelled := True\<rparr>) c"
    by (simp add: cancel_def Let_def)
  have 6: "\<not> is_triggered (events c h) \<and> callback_cancelled (events c h) \<longrightarrow> cancel h c = c"
  proof
    assume a: "\<not> is_triggered (events c h) \<and> callback_cancelled (events c h)"
    then have "(events c h)\<lparr>callback_cancelled := True\<rparr> = events c h" by simp
    then have "(events c)(h := (events c h)\<lparr>callback_cancelled := True\<rparr>) = events c"
      by simp
    with a show "cancel h c = c" by (simp add: cancel_def Let_def upd_event_def)
  qed
  from 1 2 3 4 5 6 show ?thesis by blast
qed


lemma cancel_guarantee_example:
  "0 \<notin> set (invoked_events (fst (ticks stop_prog [(1, 2), (2, 3)]
            (exec_actions [CallEvent 0] (cancel 0 clock1))))) \<and>
   frame_callbacks (cancel 0 clock1) = frame_callbacks clock1"
proof -
  have 1: "0 < counter clock1" by code_simp
  from cancel_guarantee[OF 1, of stop_prog "[(1, 2), (2, 3)]" "[CallEvent 0]"]
  show ?thesis by blast
qed

text \<open>
  Claim C7 says that \<open>cancel\<close> on a retired event is a no-op. A one-shot event fires
  and is retired. Called again, it fires in the next tick. Cancelled first and then
  called, it is put back into \<open>ordered_events\<close> and never fires: \<open>cancel\<close> has set
  \<open>_callback_cancelled\<close>, \<open>__call__\<close> does not clear it, and \<open>_process_events\<close>
  skips a cancelled event before \<open>ClockEvent.tick\<close>, which would clear it (its comment: make
  sure the callback will be called by resetting its cancelled flag), is reached.
\<close>

theorem cancel_retired_blocks_trigger:
  "fst (ticks idle_prog [(0, 1)] (snd (schedule_once 7 0 1 clock0))) = [((1, - 1, 0, 0), 7, 1)] \<and>
   ordered_events clock_retired = [] \<and>
   \<not> is_triggered (events clock_retired 0) \<and>
   \<not> callback_cancelled (events clock_retired 0) \<and>
   callback_cancelled (events (cancel 0 clock_retired) 0) \<and>
   fst (event_call 0 (cancel 0 clock_retired)) = PyTrue \<and>
   invoked_events (fst (ticks idle_prog [(1, 2), (2, 3)]
     (snd (event_call 0 (cancel 0 clock_retired))))) = [] \<and>
   ordered_events (snd (ticks idle_prog [(1, 2), (2, 3)]
     (snd (event_call 0 (cancel 0 clock_retired))))) = [0] \<and>
   invoked_events (fst (ticks idle_prog [(1, 2), (2, 3)]
     (snd (event_call 0 clock_retired)))) = [0]"
  by code_simp

subsection \<open>The wait phase\<close>

lemma hd_sort_key_Min:
  fixes k :: "'a \<Rightarrow> real"
  assumes "xs \<noteq> []"
  shows "k (hd (sort_key k xs)) = Min (k ` set xs)"
proof -
  let ?ys = "sort_key k xs"
  from assms have ne: "?ys \<noteq> []" by (metis length_0_conv length_sort)
  then obtain y ys where ys: "?ys = y # ys" by (cases ?ys) auto
  have srt: "sorted (map k ?ys)" by (rule sorted_sort_key)
  have st: "set ?ys = set xs" by simp
  have "Min (k ` set ?ys) = k y"
  proof (rule Min_eqI)
    show "finite (k ` set ?ys)" by simp
    show "k y \<in> k ` set ?ys" unfolding ys by simp
    fix z assume "z \<in> k ` set ?ys"
    with srt show "k y \<le> z" unfolding ys by auto
  qed
  with st ys show ?thesis by simp
qed

lemma get_next_event_time_earliest: "fst (get_next_event_time c) = earliest_deadline c"
  using hd_sort_key_Min[of "ordered_events c" "\<lambda>e. next_event_time (events c e)"]
  by (simp add: get_next_event_time_def earliest_deadline_def sort_events_def Let_def)

lemma get_next_event_time_sockets: "read_sockets (snd (get_next_event_time c)) = read_sockets c"
  by (simp add: get_next_event_time_def sort_events_def Let_def)

text \<open>
  Claim C9. \<open>get_next_event_time\<close> yields the earliest \<open>next_event_time\<close> of the
  pending events, and no deadline exactly when nothing is pending. With no socket
  registered the engine asks \<open>usleep\<close> for exactly the deadline minus the current time
  when that is positive, and does not sleep otherwise. The current time is what
  \<open>time()\<close> returns: the time sources of the module (\<open>perf_counter\<close>,
  \<open>CLOCK_MONOTONIC\<close>) return no negative number, which is the second case of the
  hypothesis; the first case covers any time as long as the earliest deadline is not 0.
\<close>

theorem wait_phase:
  assumes "read_sockets c = []" and "earliest_deadline c \<noteq> Some 0 \<or> 0 \<le> now"
  shows "fst (get_next_event_time c) = earliest_deadline c \<and>
         (earliest_deadline c = None) = (ordered_events c = []) \<and>
         fst (sleep_until_next_event now c) = exact_wait now c"
proof -
  obtain d c1 where g: "get_next_event_time c = (d, c1)" by (cases "get_next_event_time c")
  from g get_next_event_time_earliest[of c] have d: "d = earliest_deadline c" by simp
  from g get_next_event_time_sockets[of c] assms(1) have s: "read_sockets c1 = []" by simp
  have n: "(earliest_deadline c = None) = (ordered_events c = [])"
    by (simp add: earliest_deadline_def)
  have "fst (sleep_until_next_event now c) = exact_wait now c"
    using g d s assms(2)
    by (auto simp: sleep_until_next_event_def get_sleep_time_def exact_wait_def
          split: option.splits)
  with d g n show ?thesis by simp
qed

theorem wait_phase_witness:
  "fst (sleep_until_next_event (1 / 4) clock1) = Usleep 750000 \<and>
   fst (get_next_event_time clock1) = Some 1"
proof -
  have 1: "read_sockets clock1 = []" by code_simp
  have 2: "earliest_deadline clock1 \<noteq> Some 0 \<or> (0::real) \<le> 1 / 4" by simp
  have 3: "exact_wait (1 / 4) clock1 = Usleep 750000" by code_simp
  have 4: "earliest_deadline clock1 = Some 1" by code_simp
  from wait_phase[OF 1 2] 3 4 show ?thesis by simp
qed


text \<open>
  Why the hypothesis has two cases: \<open>_get_sleep_time\<close> tests the deadline for
  truthiness, so a deadline of 0 counts as no deadline. Only a negative time, which the
  time sources do not return, would tell the difference.
\<close>

lemma wait_phase_zero_deadline:
  "read_sockets clock_neg = [] \<and> earliest_deadline clock_neg = Some 0 \<and>
   exact_wait (- 1 / 2) clock_neg = Usleep 500000 \<and>
   fst (sleep_until_next_event (- 1 / 2) clock_neg) = NoWait \<and>
   fst (sleep_until_next_event (- 1 / 2) clock_neg) \<noteq> exact_wait (- 1 / 2) clock_neg"
  by code_simp


section \<open>Properties of the virtual-time loop\<close>

lemma nt_inv_init: "nt_inv NextTimers_init"
  by (simp add: nt_inv_def NextTimers_init_def)

lemma nt_inv_add: "nt_inv nt \<Longrightarrow> nt_inv (nt_add when nt)"
  by (auto simp: nt_inv_def nt_add_def heappush_def set_insort_key sorted_insort distinct_insort)

lemma pop_closest_inv:
  assumes "nt_inv nt" and "timers_set nt \<noteq> {}"
  shows "\<exists>nt'. pop_closest nt = Inr (Min (timers_set nt), nt') \<and>
               timers_set nt' = timers_set nt - {Min (timers_set nt)} \<and> nt_inv nt'"
proof -
  from assms obtain x xs where h: "timers_heap nt = x # xs"
    by (cases "timers_heap nt") (auto simp: nt_inv_def)
  from assms(1) h have st: "timers_set nt = insert x (set xs)" and le: "\<forall>y\<in>set xs. x \<le> y"
    and nin: "x \<notin> set xs" and srt: "sorted xs" and dst: "distinct xs"
    by (auto simp: nt_inv_def)
  have m: "Min (timers_set nt) = x"
    unfolding st by (rule Min_eqI) (use le in auto)
  let ?nt' = "nt\<lparr>timers_heap := xs, timers_set := timers_set nt - {x}\<rparr>"
  have "pop_closest nt = Inr (x, ?nt')"
    using assms(2) h st by (simp add: pop_closest_def nt_is_empty_def heappop_def)
  moreover have "nt_inv ?nt'" using st nin srt dst by (auto simp: nt_inv_def)
  ultimately show ?thesis using m by auto
qed

lemma pop_closest_nonempty: "pop_closest nt = Inr r \<Longrightarrow> timers_set nt \<noteq> {}"
  by (auto simp: pop_closest_def nt_is_empty_def split: if_splits)

lemma nt_reachable_inv: "nt_reachable nt \<Longrightarrow> nt_inv nt"
proof (induction rule: nt_reachable.induct)
  case init
  show ?case by (rule nt_inv_init)
next
  case (add nt "when")
  then show ?case by (simp add: nt_inv_add)
next
  case (pop nt "when" nt')
  from pop.hyps(2) have "timers_set nt \<noteq> {}" by (rule pop_closest_nonempty)
  from pop_closest_inv[OF pop.IH this] pop.hyps(2) show ?case by auto
qed

lemma nt_add_idem: "nt_add when (nt_add when nt) = nt_add when nt"
  by (simp add: nt_add_def)

text \<open>
  Claim C10. In every state of \<open>NextTimers\<close> that \<open>add\<close> and \<open>pop_closest\<close> can reach,
  adding a deadline a second time changes nothing, the set holds the deadlines added and
  not yet popped, and \<open>pop_closest\<close> returns and removes their minimum (it raises
  \<open>IndexError\<close> when there is none). \<open>_run_once\<close> sets the time to that minimum when no
  handle is ready and a deadline is pending, and leaves the time alone otherwise.
\<close>

theorem next_timers_min:
  assumes "nt_reachable (timers l)"
  shows "nt_add when (nt_add when (timers l)) = nt_add when (timers l) \<and>
         timers_set (nt_add when (timers l)) = insert when (timers_set (timers l)) \<and>
         (if timers_set (timers l) = {}
          then pop_closest (timers l) = Inl IndexError \<and> advance_to_next_timer l = Inr l
          else \<exists>nt'. pop_closest (timers l) = Inr (Min (timers_set (timers l)), nt') \<and>
                 timers_set nt' = timers_set (timers l) - {Min (timers_set (timers l))} \<and>
                 nt_reachable nt' \<and>
                 advance_to_next_timer l =
                   Inr (if ready l = []
                        then l\<lparr>loop_time := Min (timers_set (timers l)), timers := nt'\<rparr>
                        else l))"
proof -
  have 1: "timers_set (nt_add when (timers l)) = insert when (timers_set (timers l))"
    by (auto simp: nt_add_def)
  show ?thesis
  proof (cases "timers_set (timers l) = {}")
    case True
    then show ?thesis
      using 1 by (simp add: nt_add_idem pop_closest_def nt_is_empty_def advance_to_next_timer_def)
  next
    case False
    from pop_closest_inv[OF nt_reachable_inv[OF assms] False] obtain nt' where
      p: "pop_closest (timers l) = Inr (Min (timers_set (timers l)), nt')"
         "timers_set nt' = timers_set (timers l) - {Min (timers_set (timers l))}" by auto
    from assms p(1) have "nt_reachable nt'" by (rule nt_reachable.pop)
    with p False 1 show ?thesis
      by (simp add: nt_add_idem advance_to_next_timer_def nt_is_empty_def)
  qed
qed

lemma loop0_timers: "timers loop0 = nt_add 3 (nt_add 5 (nt_add 3 NextTimers_init))"
  by (simp add: loop0_def call_at_def)

theorem next_timers_min_witness:
  "(\<exists>nt'. pop_closest (timers loop0) = Inr (3, nt') \<and> timers_set nt' = {5} \<and>
          advance_to_next_timer loop0 = Inr (loop0\<lparr>loop_time := 3, timers := nt'\<rparr>))"
proof -
  have r: "nt_reachable (timers loop0)"
    unfolding loop0_timers by (intro nt_reachable.add nt_reachable.init)
  have s: "timers_set (timers loop0) = {3, 5}"
    by (auto simp: loop0_timers nt_add_def NextTimers_init_def)
  have m: "Min {3, 5 :: real} = 3" by simp
  have d: "{3, 5} - {3 :: real} = {5}" by auto
  have e: "ready loop0 = []" by (simp add: loop0_def call_at_def)
  from next_timers_min[OF r, of 3] show ?thesis
    unfolding s m by (auto simp: d e)
qed

section \<open>What a callback is called with, and when\<close>

subsection \<open>The argument of a callback\<close>

lemma frametime_cancel: "frametime (cancel e c) = frametime c"
  by (simp add: cancel_def upd_event_def remove_event_def Let_def)

lemma frametime_exec_action: "frametime (exec_action a c) = frametime c"
  by (cases a)
     (simp_all add: schedule_once_def schedule_interval_def ClockEvent_init_def Let_def
        event_call_def upd_event_def frametime_cancel)

lemma frametime_exec_actions: "frametime (exec_actions acts c) = frametime c"
  unfolding exec_actions_def
  by (induction acts arbitrary: c) (simp_all add: frametime_exec_action)

lemma frametime_dispatch_entry:
  "frametime (snd (dispatch_entry p en c)) = frametime c \<and>
   list_all (\<lambda>i. snd (snd i) = frametime c) (fst (dispatch_entry p en c))"
  by (simp add: dispatch_entry_def Let_def frametime_cancel frametime_exec_actions
        split: option.splits prod.splits)

lemma frametime_dispatch:
  "frametime (snd (dispatch p ens c)) = frametime c \<and>
   list_all (\<lambda>i. snd (snd i) = frametime c) (fst (dispatch p ens c))"
proof (induction ens arbitrary: c)
  case Nil
  show ?case by simp
next
  case (Cons en ens)
  obtain tr c1 where d: "dispatch_entry p en c = (tr, c1)" by (cases "dispatch_entry p en c")
  obtain tr' c2 where r: "dispatch p ens c1 = (tr', c2)" by (cases "dispatch p ens c1")
  from frametime_dispatch_entry[of p en c] d
  have 1: "frametime c1 = frametime c" "list_all (\<lambda>i. snd (snd i) = frametime c) tr"
    by simp_all
  from Cons.IH[of c1] r 1(1)
  have 2: "frametime c2 = frametime c" "list_all (\<lambda>i. snd (snd i) = frametime c) tr'"
    by simp_all
  from d r 1 2 show ?case by simp
qed

lemma frametime_event_tick: "frametime (snd (event_tick t e c)) = frametime c"
  by (simp add: event_tick_def upd_event_def remove_event_def Let_def
        add_event_to_frame_callbacks_def split: option.splits)

lemma frametime_process_loop: "frametime (process_loop es c) = frametime c"
  by (induction es arbitrary: c) (simp_all add: frametime_event_tick)

lemma frametime_process_events: "frametime (process_events c) = frametime c"
  by (simp add: process_events_def Let_def frametime_process_loop sort_events_def)

lemma last_tick_sleep: "last_tick (snd (sleep_until_next_event now c)) = last_tick c"
  by (simp add: sleep_until_next_event_def get_sleep_time_def get_next_event_time_def
        sort_events_def Let_def split: prod.splits)

lemma frametime_advance_time: "frametime (advance_time current c) = current - last_tick c"
  by (simp add: advance_time_def Let_def split: option.splits)

lemma invocation_argument_frametime:
  "list_all (\<lambda>i. snd (snd i) = current - last_tick c) (fst (snd (tick p now current c)))"
proof -
  obtain w c1 where s: "sleep_until_next_event now c = (w, c1)"
    by (cases "sleep_until_next_event now c")
  let ?c2 = "process_events (advance_time current c1)"
  from s last_tick_sleep[of now c] have "last_tick c1 = last_tick c" by simp
  then have f: "frametime ?c2 = current - last_tick c"
    by (simp add: frametime_process_events frametime_advance_time)
  obtain tr c3 where d: "dispatch p (sort (frame_callbacks ?c2)) ?c2 = (tr, c3)"
    by (cases "dispatch p (sort (frame_callbacks ?c2)) ?c2")
  from frametime_dispatch[of p "sort (frame_callbacks ?c2)" ?c2] d f
  have "list_all (\<lambda>i. snd (snd i) = current - last_tick c) tr" by simp
  with s d show ?thesis by (simp add: tick_def process_event_callbacks_def)
qed


text \<open>
  Claim C5 says that a callback receives the time elapsed since the previous firing of
  its own event (or since the event was scheduled). \<open>ClockEvent.tick\<close> computes that
  number into the field \<open>_dt\<close>, but \<open>_process_event_callbacks\<close> calls
  \<open>callback(self.frametime)\<close>: every callback of a tick receives the time between the
  previous tick and this one. An event scheduled at time 0 with a delay of 5, ticks at
  times 3 and 6: the callback is called with 3, and the event's \<open>_dt\<close> is 6.
\<close>

theorem callback_gets_frametime:
  "fst (ticks idle_prog [(0, 3), (3, 6)] clock_late) = [((5, - 1, 0, 0), 7, 3)] \<and>
   ev_dt (events (snd (ticks idle_prog [(0, 3), (3, 6)] clock_late)) 0) = 6 \<and>
   frametime (snd (ticks idle_prog [(0, 3), (3, 6)] clock_late)) = 3"
  by code_simp

subsection \<open>Events scheduled before the next frame\<close>

text \<open>
  Claim C3 says that an event with a negative delay that its own callback schedules
  again fires up to \<open>max_iteration\<close> times in one tick, with a warning past that limit.
  \<open>ClockBase.tick\<close> runs \<open>_process_events\<close> and \<open>_process_event_callbacks\<close>
  once each and never reads \<open>max_iteration\<close>: the callback is invoked once, the event
  it schedules waits for the next tick, and nothing is logged above debug level.
\<close>

theorem before_frame_once_per_tick:
  "max_iteration clock_before_frame = 10 \<and>
   invoked_events (fst (snd (tick rearm_prog 0 1 clock_before_frame))) = [0] \<and>
   ordered_events (snd (snd (tick rearm_prog 0 1 clock_before_frame))) = [1] \<and>
   timeout (events (snd (snd (tick rearm_prog 0 1 clock_before_frame))) 1) = - 1 \<and>
   Warning \<notin> set (clock_log (snd (snd (tick rearm_prog 0 1 clock_before_frame)))) \<and>
   invoked_events (fst (ticks rearm_prog [(0, 1), (1, 2), (2, 3)] clock_before_frame)) = [0, 1, 2]"
  by code_simp

section \<open>The due-selection phase\<close>

text \<open>
  \<open>agree_on h c c1\<close> says that nothing that concerns the event \<open>h\<close> differs between
  two states. Ticking another event keeps it; so the loop of \<open>_process_events\<close>, over
  a snapshot without duplicates that is sorted by \<open>next_event_time\<close>, reaches every due
  event in the state the event had when the loop began.
\<close>

lemma agree_on_refl: "agree_on h c c"
  by (simp add: agree_on_def)

lemma agree_on_trans: "agree_on h c c1 \<Longrightarrow> agree_on h c1 c2 \<Longrightarrow> agree_on h c c2"
  by (simp add: agree_on_def)

lemma event_tick_others:
  "g \<noteq> e \<Longrightarrow> events (snd (event_tick t e c)) g = events c g"
  by (simp add: event_tick_def upd_event_def remove_event_def Let_def
        add_event_to_frame_callbacks_def split: option.splits)

lemma event_tick_last_tick: "last_tick (snd (event_tick t e c)) = last_tick c"
  by (simp add: event_tick_def upd_event_def remove_event_def Let_def
        add_event_to_frame_callbacks_def split: option.splits)

lemma event_tick_agree:
  assumes "e \<noteq> h"
  shows "agree_on h c (snd (event_tick t e c))"
  using assms
  by (auto simp: agree_on_def event_tick_def upd_event_def remove_event_def Let_def
        add_event_to_frame_callbacks_def entry_event_def split: option.splits)

lemma process_loop_agree:
  "h \<notin> set es \<Longrightarrow> agree_on h c (process_loop es c)"
proof (induction es arbitrary: c)
  case Nil
  show ?case by (simp add: agree_on_refl)
next
  case (Cons e es)
  then have ne: "e \<noteq> h" and nin: "h \<notin> set es" by auto
  let ?c1 = "if \<not> callback_cancelled (events c e) then snd (event_tick (last_tick c) e c) else c"
  have a: "agree_on h c ?c1" using ne by (simp add: event_tick_agree agree_on_refl)
  show ?case
  proof (cases "next_event_time (events c e) > last_tick c")
    case True
    then show ?thesis by (simp add: agree_on_refl)
  next
    case False
    then have "process_loop (e # es) c = process_loop es ?c1" by simp
    with agree_on_trans[OF a Cons.IH[OF nin, of ?c1]] show ?thesis by simp
  qed
qed

lemma process_loop_visit:
  assumes "distinct es" and "h \<in> set es"
    and "\<forall>x\<in>set (takeWhile (\<lambda>x. x \<noteq> h) es). next_event_time (events c x) \<le> last_tick c"
    and "next_event_time (events c h) \<le> last_tick c"
  shows "\<exists>c1 es2. agree_on h c c1 \<and> h \<notin> set es2 \<and>
           process_loop es c =
             process_loop es2 (if \<not> callback_cancelled (events c h)
                               then snd (event_tick (last_tick c) h c1) else c1)"
  using assms
proof (induction es arbitrary: c)
  case Nil
  then show ?case by simp
next
  case (Cons e es)
  show ?case
  proof (cases "e = h")
    case True
    with Cons.prems have "h \<notin> set es" by simp
    moreover have "process_loop (e # es) c =
        process_loop es (if \<not> callback_cancelled (events c h)
                         then snd (event_tick (last_tick c) h c) else c)"
      using True Cons.prems(4) by simp
    ultimately show ?thesis using agree_on_refl[of h c] by blast
  next
    case False
    let ?c1 = "if \<not> callback_cancelled (events c e) then snd (event_tick (last_tick c) e c) else c"
    from False Cons.prems have due_e: "next_event_time (events c e) \<le> last_tick c" by simp
    then have step: "process_loop (e # es) c = process_loop es ?c1" by simp
    have a: "agree_on h c ?c1" using False by (simp add: event_tick_agree agree_on_refl)
    have lt: "last_tick ?c1 = last_tick c" by (simp add: event_tick_last_tick)
    have ev: "\<And>x. x \<noteq> e \<Longrightarrow> events ?c1 x = events c x" by (simp add: event_tick_others)
    from Cons.prems False have d: "distinct es" and hin: "h \<in> set es" and en: "e \<notin> set es"
      by auto
    have before: "\<forall>x\<in>set (takeWhile (\<lambda>x. x \<noteq> h) es).
                   next_event_time (events ?c1 x) \<le> last_tick ?c1"
    proof
      fix x assume x: "x \<in> set (takeWhile (\<lambda>x. x \<noteq> h) es)"
      then have "x \<in> set es" by (rule set_takeWhileD[THEN conjunct1])
      with en have "x \<noteq> e" by auto
      moreover from x False Cons.prems(3)
      have "next_event_time (events c x) \<le> last_tick c" by simp
      ultimately show "next_event_time (events ?c1 x) \<le> last_tick ?c1"
        using ev[of x] lt by simp
    qed
    have dueh: "next_event_time (events ?c1 h) \<le> last_tick ?c1"
      using ev[of h] False lt Cons.prems(4) by simp
    from Cons.IH[OF d hin before dueh] obtain c2 es2 where
      r: "agree_on h ?c1 c2" "h \<notin> set es2"
         "process_loop es ?c1 =
            process_loop es2 (if \<not> callback_cancelled (events ?c1 h)
                              then snd (event_tick (last_tick ?c1) h c2) else c2)"
      by blast
    have "events ?c1 h = events c h" using ev[of h] False by simp
    with r(3) lt step have "process_loop (e # es) c =
       process_loop es2 (if \<not> callback_cancelled (events c h)
                         then snd (event_tick (last_tick c) h c2) else c2)" by simp
    with agree_on_trans[OF a r(1)] r(2) show ?thesis by blast
  qed
qed


lemma tick_due_selection:
  "tick p now current c =
     (fst (sleep_until_next_event now c),
      process_event_callbacks p (due_selection now current c))"
  by (simp add: tick_def due_selection_def split: prod.splits)

lemma sorted_before:
  fixes k :: "'a \<Rightarrow> real"
  assumes "sorted (map k xs)" and "h \<in> set xs" and "x \<in> set (takeWhile (\<lambda>y. y \<noteq> h) xs)"
  shows "k x \<le> k h"
proof -
  let ?P = "\<lambda>y. y \<noteq> h"
  have split: "xs = takeWhile ?P xs @ dropWhile ?P xs" by simp
  from assms(2) have "dropWhile ?P xs \<noteq> []" by auto
  then have "hd (dropWhile ?P xs) \<in> set (dropWhile ?P xs)" by simp
  moreover from assms(2) have "hd (dropWhile ?P xs) = h"
    using hd_dropWhile[of ?P xs] by auto
  ultimately have hin: "h \<in> set (dropWhile ?P xs)" by simp
  from assms(1) have "sorted (map k (takeWhile ?P xs) @ map k (dropWhile ?P xs))"
    by (metis map_append split)
  then have "\<forall>a\<in>set (map k (takeWhile ?P xs)). \<forall>b\<in>set (map k (dropWhile ?P xs)). a \<le> b"
    by (simp add: sorted_append)
  with assms(3) hin show ?thesis by auto
qed

lemma sort_events_agree: "agree_on h c (sort_events c)"
  by (simp add: agree_on_def sort_events_def)

lemma process_events_visit:
  assumes "distinct (ordered_events c)" and "h \<in> set (ordered_events c)"
    and "next_event_time (events c h) \<le> last_tick c"
  shows "\<exists>c1 es2. agree_on h c c1 \<and> h \<notin> set es2 \<and>
           process_events c =
             process_loop es2 (if \<not> callback_cancelled (events c h)
                               then snd (event_tick (last_tick c) h c1) else c1)"
proof -
  let ?k = "\<lambda>e. next_event_time (events c e)"
  let ?c1 = "sort_events c"
  let ?es = "ordered_events ?c1"
  have es: "?es = sort_key ?k (ordered_events c)" by (simp add: sort_events_def)
  have ev: "events ?c1 = events c" and lt: "last_tick ?c1 = last_tick c"
    by (simp_all add: sort_events_def)
  have d: "distinct ?es" using assms(1) es by simp
  have hin: "h \<in> set ?es" using assms(2) es by simp
  have srt: "sorted (map ?k ?es)" unfolding es by (rule sorted_sort_key)
  have before: "\<forall>x\<in>set (takeWhile (\<lambda>x. x \<noteq> h) ?es).
                  next_event_time (events ?c1 x) \<le> last_tick ?c1"
  proof
    fix x assume "x \<in> set (takeWhile (\<lambda>x. x \<noteq> h) ?es)"
    from sorted_before[OF srt hin this] assms(3) show
      "next_event_time (events ?c1 x) \<le> last_tick ?c1" using ev lt by simp
  qed
  have dueh: "next_event_time (events ?c1 h) \<le> last_tick ?c1" using assms(3) ev lt by simp
  from process_loop_visit[OF d hin before dueh] obtain c2 es2 where
    r: "agree_on h ?c1 c2" "h \<notin> set es2"
       "process_loop ?es ?c1 =
          process_loop es2 (if \<not> callback_cancelled (events ?c1 h)
                            then snd (event_tick (last_tick ?c1) h c2) else c2)"
    by blast
  from assms(2) have "ordered_events c \<noteq> []" by auto
  then have "process_events c = process_loop ?es ?c1" by (simp add: process_events_def Let_def)
  with r(3) ev lt have "process_events c =
     process_loop es2 (if \<not> callback_cancelled (events c h)
                       then snd (event_tick (last_tick c) h c2) else c2)" by simp
  with agree_on_trans[OF sort_events_agree r(1)] r(2) show ?thesis by blast
qed

lemma pre_select_agree:
  "events (advance_time current (snd (sleep_until_next_event now c))) = events c \<and>
   last_tick (advance_time current (snd (sleep_until_next_event now c))) = current \<and>
   counter (advance_time current (snd (sleep_until_next_event now c))) = counter c \<and>
   frame_callbacks (advance_time current (snd (sleep_until_next_event now c))) =
     frame_callbacks c \<and>
   set (ordered_events (advance_time current (snd (sleep_until_next_event now c)))) =
     set (ordered_events c) \<and>
   distinct (ordered_events (advance_time current (snd (sleep_until_next_event now c)))) =
     distinct (ordered_events c)"
  by (simp add: advance_time_def sleep_until_next_event_def get_sleep_time_def
        get_next_event_time_def sort_events_def Let_def split: prod.splits option.splits)

lemma dispatch_entry_invoked:
  "set (invoked_events (fst (dispatch_entry p en c))) \<subseteq> {entry_event en}"
  by (simp add: dispatch_entry_def invoked_events_def Let_def split: option.splits prod.splits)

lemma dispatch_invoked:
  "set (invoked_events (fst (dispatch p ens c))) \<subseteq> entry_event ` set ens"
proof (induction ens arbitrary: c)
  case Nil
  show ?case by (simp add: invoked_events_def)
next
  case (Cons en ens)
  obtain tr c1 where d: "dispatch_entry p en c = (tr, c1)" by (cases "dispatch_entry p en c")
  obtain tr' c2 where r: "dispatch p ens c1 = (tr', c2)" by (cases "dispatch p ens c1")
  from dispatch_entry_invoked[of p en c] d
  have 1: "set (invoked_events tr) \<subseteq> {entry_event en}" by simp
  from Cons.IH[of c1] r have 2: "set (invoked_events tr') \<subseteq> entry_event ` set ens" by simp
  have "invoked_events (tr @ tr') = invoked_events tr @ invoked_events tr'"
    by (simp add: invoked_events_def)
  with d r 1 2 show ?case by auto
qed

lemma tick_invoked:
  "set (invoked_events (fst (snd (tick p now current c)))) \<subseteq>
     entry_event ` set (frame_callbacks (due_selection now current c))"
proof -
  let ?q = "due_selection now current c"
  obtain tr c1 where d: "dispatch p (sort (frame_callbacks ?q)) ?q = (tr, c1)"
    by (cases "dispatch p (sort (frame_callbacks ?q)) ?q")
  from dispatch_invoked[of p "sort (frame_callbacks ?q)" ?q] d
  have "set (invoked_events tr) \<subseteq> entry_event ` set (frame_callbacks ?q)" by simp
  with d show ?thesis by (simp add: tick_due_selection process_event_callbacks_def)
qed

lemma event_tick_dead:
  assumes "get_callback (events c h) = None" and "next_event_time (events c h) \<le> t"
  shows "event_tick t h c =
           (PyFalse, remove_event h
              (upd_event h (\<lambda>ev. (reschedule t ev)\<lparr>is_triggered := False\<rparr>) c))"
proof -
  have "get_callback (reschedule t (events c h)) = None"
    using assms(1) by (simp add: get_callback_def reschedule_def reschedule_with_def Let_def)
  with assms(2) show ?thesis
    by (simp add: event_tick_def upd_event_def remove_event_def Let_def)
qed

subsection \<open>Dead weak references\<close>

text \<open>
  Claim C8. A pending event that is due, whose weak callback reference resolves to
  nothing when \<open>_process_events\<close> examines it, is retired: it leaves
  \<open>ordered_events\<close>, it is no longer triggered, it is not put into the frame queue, and
  the tick invokes no callback for it. Nothing is raised: the functions are total, and
  the \<open>ValueError\<close> of \<open>remove\<close> is caught in the source.
\<close>

theorem dead_reference_retires:
  assumes "distinct (ordered_events c)" and "h \<in> set (ordered_events c)"
    and "frame_callbacks c = []"
    and "\<not> callback_cancelled (events c h)" and "get_callback (events c h) = None"
    and "next_event_time (events c h) \<le> current"
  shows "h \<notin> set (ordered_events (due_selection now current c)) \<and>
         \<not> is_triggered (events (due_selection now current c) h) \<and>
         h \<notin> entry_event ` set (frame_callbacks (due_selection now current c)) \<and>
         h \<notin> set (invoked_events (fst (snd (tick p now current c))))"
proof -
  let ?c0 = "advance_time current (snd (sleep_until_next_event now c))"
  from pre_select_agree[of current now c] assms have
    d0: "distinct (ordered_events ?c0)" and h0: "h \<in> set (ordered_events ?c0)" and
    f0: "frame_callbacks ?c0 = []" and e0: "events ?c0 = events c" and
    t0: "last_tick ?c0 = current" by simp_all
  have due0: "next_event_time (events ?c0 h) \<le> last_tick ?c0" using assms(6) e0 t0 by simp
  from process_events_visit[OF d0 h0 due0] assms(4) e0 t0 obtain c1 es2 where
    a: "agree_on h ?c0 c1" and n: "h \<notin> set es2" and
    p: "process_events ?c0 = process_loop es2 (snd (event_tick current h c1))" by auto
  let ?x = "snd (event_tick current h c1)"
  from a e0 have e1: "events c1 h = events c h" by (simp add: agree_on_def)
  from a d0 h0 f0 have d1: "distinct (ordered_events c1)" and
    f1: "filter (\<lambda>en. entry_event en = h) (frame_callbacks c1) = []"
    by (simp_all add: agree_on_def)
  have x: "?x = remove_event h
              (upd_event h (\<lambda>ev. (reschedule current ev)\<lparr>is_triggered := False\<rparr>) c1)"
    using event_tick_dead[of c1 h current] assms(5,6) e1 by simp
  have x1: "h \<notin> set (ordered_events ?x)" using d1 by (simp add: x remove_event_def upd_event_def)
  have x2: "\<not> is_triggered (events ?x h)" by (simp add: x remove_event_def upd_event_def)
  have x3: "filter (\<lambda>en. entry_event en = h) (frame_callbacks ?x) = []"
    using f1 by (simp add: x remove_event_def upd_event_def)
  from process_loop_agree[OF n, of ?x] p
  have ag: "agree_on h ?x (due_selection now current c)" by (simp add: due_selection_def)
  from ag x1 have 1: "h \<notin> set (ordered_events (due_selection now current c))"
    by (simp add: agree_on_def)
  from ag x2 have 2: "\<not> is_triggered (events (due_selection now current c) h)"
    by (simp add: agree_on_def)
  from ag x3 have "filter (\<lambda>en. entry_event en = h)
                     (frame_callbacks (due_selection now current c)) = []"
    by (simp add: agree_on_def)
  then have 3: "h \<notin> entry_event ` set (frame_callbacks (due_selection now current c))"
    by (auto simp: filter_empty_conv)
  from 3 tick_invoked[of p now current c]
  have 4: "h \<notin> set (invoked_events (fst (snd (tick p now current c))))" by blast
  from 1 2 3 4 show ?thesis by simp
qed


theorem dead_reference_retires_witness:
  "ordered_events clock_dead = [0] \<and>
   0 \<notin> set (ordered_events (due_selection 0 1 clock_dead)) \<and>
   \<not> is_triggered (events (due_selection 0 1 clock_dead) 0) \<and>
   0 \<notin> set (invoked_events (fst (snd (tick idle_prog 0 1 clock_dead))))"
proof -
  have 1: "distinct (ordered_events clock_dead)" by code_simp
  have 2: "0 \<in> set (ordered_events clock_dead)" by code_simp
  have 3: "frame_callbacks clock_dead = []" by code_simp
  have 4: "\<not> callback_cancelled (events clock_dead 0)" by code_simp
  have 5: "get_callback (events clock_dead 0) = None" by code_simp
  have 6: "next_event_time (events clock_dead 0) \<le> 1" by code_simp
  have 7: "ordered_events clock_dead = [0]" by code_simp
  from dead_reference_retires[OF 1 2 3 4 5 6, of 0 idle_prog] 7 show ?thesis by blast
qed

section \<open>The order of dispatch\<close>

lemma event_tick_queue:
  assumes "next_event_time (events c e) \<le> last_tick c"
  shows "frame_callbacks (snd (event_tick (last_tick c) e c)) = frame_callbacks c \<or>
         frame_callbacks (snd (event_tick (last_tick c) e c)) =
           frame_callbacks c @ [entry_of c (last_tick c) e]"
  using assms
  by (auto simp: event_tick_def upd_event_def remove_event_def Let_def
        add_event_to_frame_callbacks_def entry_of_def fire_time_def reschedule_def reschedule_with_def
        split: option.splits)

lemma queue_ok_step:
  assumes "queue_ok c0 (e # es) c" and "next_event_time (events c e) \<le> last_tick c"
  shows "queue_ok c0 es (if \<not> callback_cancelled (events c e)
                         then snd (event_tick (last_tick c) e c) else c)"
proof (cases "callback_cancelled (events c e)")
  case True
  with assms(1) show ?thesis by (auto simp: queue_ok_def)
next
  case False
  let ?c1 = "snd (event_tick (last_tick c) e c)"
  from assms(1) have d: "distinct es" "e \<notin> set es" and lt: "last_tick c = last_tick c0"
    and ev: "\<forall>x\<in>set es. events c x = events c0 x" and e0: "events c e = events c0 e"
    and dq: "distinct (map entry_event (frame_callbacks c))"
    and q: "\<forall>en\<in>set (frame_callbacks c).
              entry_event en \<notin> set (e # es) \<and> en = entry_of c0 (last_tick c0) (entry_event en)"
    by (auto simp: queue_ok_def)
  have lt1: "last_tick ?c1 = last_tick c0" using lt by (simp add: event_tick_last_tick)
  have ev1: "\<forall>x\<in>set es. events ?c1 x = events c0 x"
  proof
    fix x assume x: "x \<in> set es"
    with d(2) have "x \<noteq> e" by auto
    from event_tick_others[OF this, of "last_tick c" c] ev x
    show "events ?c1 x = events c0 x" by simp
  qed
  have same: "entry_of c (last_tick c) e = entry_of c0 (last_tick c0) e"
    using e0 lt by (simp add: entry_of_def fire_time_def)
  have ee: "entry_event (entry_of c0 (last_tick c0) e) = e"
    by (simp add: entry_of_def entry_event_def)
  from q have notin: "e \<notin> entry_event ` set (frame_callbacks c)" by auto
  from event_tick_queue[OF assms(2)] same
  have "frame_callbacks ?c1 = frame_callbacks c \<or>
        frame_callbacks ?c1 = frame_callbacks c @ [entry_of c0 (last_tick c0) e]" by simp
  then have "distinct (map entry_event (frame_callbacks ?c1)) \<and>
             (\<forall>en\<in>set (frame_callbacks ?c1).
                entry_event en \<notin> set es \<and> en = entry_of c0 (last_tick c0) (entry_event en))"
  proof
    assume "frame_callbacks ?c1 = frame_callbacks c"
    with dq q show ?thesis by auto
  next
    assume "frame_callbacks ?c1 = frame_callbacks c @ [entry_of c0 (last_tick c0) e]"
    with dq q notin ee d(2) show ?thesis by auto
  qed
  with d(1) lt1 ev1 False show ?thesis by (simp add: queue_ok_def)
qed

lemma queue_ok_loop: "queue_ok c0 es c \<Longrightarrow> queue_ok c0 [] (process_loop es c)"
proof (induction es arbitrary: c)
  case Nil
  then show ?case by simp
next
  case (Cons e es)
  show ?case
  proof (cases "next_event_time (events c e) > last_tick c")
    case True
    with Cons.prems show ?thesis by (auto simp: queue_ok_def)
  next
    case False
    then have due: "next_event_time (events c e) \<le> last_tick c" by simp
    from Cons.IH[OF queue_ok_step[OF Cons.prems due]] False show ?thesis by simp
  qed
qed

lemma queue_ok_due_selection:
  assumes "frame_callbacks c = []" and "distinct (ordered_events c)"
  shows "distinct (map entry_event (frame_callbacks (due_selection now current c))) \<and>
         (\<forall>en\<in>set (frame_callbacks (due_selection now current c)).
            en = entry_of c current (entry_event en))"
proof -
  let ?c0 = "advance_time current (snd (sleep_until_next_event now c))"
  from pre_select_agree[of current now c] assms have
    d0: "distinct (ordered_events ?c0)" and f0: "frame_callbacks ?c0 = []" and
    e0: "events ?c0 = events c" and t0: "last_tick ?c0 = current" by simp_all
  have en: "entry_of ?c0 (last_tick ?c0) = entry_of c current"
    using e0 t0 by (simp add: entry_of_def fire_time_def fun_eq_iff)
  have "queue_ok ?c0 [] (process_events ?c0)"
  proof (cases "ordered_events ?c0 = []")
    case True
    then show ?thesis using f0 by (simp add: process_events_def queue_ok_def)
  next
    case False
    have "queue_ok ?c0 (ordered_events (sort_events ?c0)) (sort_events ?c0)"
      using d0 f0 by (simp add: queue_ok_def sort_events_def)
    from queue_ok_loop[OF this] False show ?thesis by (simp add: process_events_def Let_def)
  qed
  then show ?thesis unfolding due_selection_def queue_ok_def en by simp
qed

lemma dispatch_entry_trace: "set (map fst (fst (dispatch_entry p en c))) \<subseteq> {en}"
  by (simp add: dispatch_entry_def Let_def split: option.splits prod.splits)

lemma dispatch_trace_set: "set (map fst (fst (dispatch p ens c))) \<subseteq> set ens"
proof (induction ens arbitrary: c)
  case Nil
  show ?case by simp
next
  case (Cons en ens)
  obtain tr c1 where d: "dispatch_entry p en c = (tr, c1)" by (cases "dispatch_entry p en c")
  obtain tr' c2 where r: "dispatch p ens c1 = (tr', c2)" by (cases "dispatch p ens c1")
  from dispatch_entry_trace[of p en c] d have "set (map fst tr) \<subseteq> {en}" by simp
  moreover from Cons.IH[of c1] r have "set (map fst tr') \<subseteq> set ens" by simp
  ultimately show ?case using d r by auto
qed

lemma dispatch_trace_sorted:
  "sorted_wrt P ens \<Longrightarrow> sorted_wrt P (map fst (fst (dispatch p ens c)))"
proof (induction ens arbitrary: c)
  case Nil
  show ?case by simp
next
  case (Cons en ens)
  obtain tr c1 where d: "dispatch_entry p en c = (tr, c1)" by (cases "dispatch_entry p en c")
  obtain tr' c2 where r: "dispatch p ens c1 = (tr', c2)" by (cases "dispatch p ens c1")
  from dispatch_entry_trace[of p en c] d have 1: "set (map fst tr) \<subseteq> {en}" by simp
  from d have 2: "length tr \<le> 1"
    by (auto simp: dispatch_entry_def Let_def split: option.splits prod.splits if_splits)
  from dispatch_trace_set[of p ens c1] r have 3: "set (map fst tr') \<subseteq> set ens" by simp
  from Cons.IH[of c1] Cons.prems r have 4: "sorted_wrt P (map fst tr')" by simp
  from Cons.prems have 5: "\<forall>y\<in>set ens. P en y" by simp
  have 6: "sorted_wrt P (map fst tr)" using 2 by (cases tr) auto
  have "\<forall>x\<in>set (map fst tr). \<forall>y\<in>set (map fst tr'). P x y"
  proof (intro ballI)
    fix x y assume "x \<in> set (map fst tr)" and "y \<in> set (map fst tr')"
    with 1 3 have "x = en" and "y \<in> set ens" by auto
    with 5 show "P x y" by simp
  qed
  with 4 6 d r show ?case by (simp add: sorted_wrt_append)
qed

lemma entry_less_fires_before:
  assumes "entry_of c current a < entry_of c current b"
  shows "fires_before c current a b"
  using assms by (auto simp: entry_of_def fires_before_def)

text \<open>
  Claim C1. In a tick that starts with an empty frame queue and a pending list without
  duplicates, the callbacks are invoked in ascending order of (fire time, negated
  priority, id): of two events invoked in the tick, the one invoked first has the earlier
  fire time, or the same fire time and the higher priority, or the same fire time and
  priority and the smaller id. Each queue entry invoked is the tuple of that event.
\<close>

theorem dispatch_order:
  assumes "frame_callbacks c = []" and "distinct (ordered_events c)"
  shows "sorted_wrt (fires_before c current)
           (invoked_events (fst (snd (tick p now current c)))) \<and>
         map fst (fst (snd (tick p now current c))) =
           map (entry_of c current) (invoked_events (fst (snd (tick p now current c))))"
proof -
  let ?q = "due_selection now current c"
  let ?ens = "sort (frame_callbacks ?q)"
  obtain tr c1 where d: "dispatch p ?ens ?q = (tr, c1)" by (cases "dispatch p ?ens ?q")
  then have tr: "fst (snd (tick p now current c)) = tr"
    by (simp add: tick_due_selection process_event_callbacks_def)
  from queue_ok_due_selection[OF assms, of now current] have
    dq: "distinct (map entry_event (frame_callbacks ?q))" and
    q: "\<forall>en\<in>set (frame_callbacks ?q). en = entry_of c current (entry_event en)" by simp_all
  from dq have "distinct (frame_callbacks ?q)" by (simp add: distinct_map)
  then have "sorted_wrt (<) ?ens" by (simp add: strict_sorted_iff)
  from dispatch_trace_sorted[OF this, of p ?q] d
  have s: "sorted_wrt (<) (map fst tr)" by simp
  from dispatch_trace_set[of p ?ens ?q] d have sub: "set (map fst tr) \<subseteq> set (frame_callbacks ?q)"
    by simp
  with q have form: "\<forall>en\<in>set (map fst tr). en = entry_of c current (entry_event en)" by blast
  then have m: "map fst tr = map (entry_of c current) (invoked_events tr)"
    by (simp add: invoked_events_def)
  from s have "sorted_wrt (<) (map (entry_of c current) (invoked_events tr))" using m by simp
  then have "sorted_wrt (\<lambda>a b. entry_of c current a < entry_of c current b) (invoked_events tr)"
    by (simp add: sorted_wrt_map)
  then have "sorted_wrt (fires_before c current) (invoked_events tr)"
    by (rule sorted_wrt_mono_rel[rotated]) (simp add: entry_less_fires_before)
  with m tr show ?thesis by simp
qed

theorem dispatch_order_witness:
  "invoked_events (fst (snd (tick idle_prog 0 1 clock_abc))) = [1, 2, 0] \<and>
   sorted_wrt (fires_before clock_abc 1) (invoked_events (fst (snd (tick idle_prog 0 1 clock_abc))))"
proof -
  have 1: "frame_callbacks clock_abc = []" by code_simp
  have 2: "distinct (ordered_events clock_abc)" by code_simp
  have 3: "invoked_events (fst (snd (tick idle_prog 0 1 clock_abc))) = [1, 2, 0]" by code_simp
  from dispatch_order[OF 1 2, of 1 idle_prog 0] 3 show ?thesis by blast
qed

section \<open>Triggers\<close>

lemma event_calls_pending:
  "is_triggered (events c h) \<Longrightarrow> event_calls k h c = (replicate k PyNone, c)"
  by (induction k) (simp_all add: event_call_def)

lemma event_calls_idle:
  assumes "\<not> is_triggered (events c h)"
  shows "event_calls (Suc k) h c = (PyTrue # replicate k PyNone, snd (event_call h c))"
proof -
  let ?c1 = "(upd_event h (\<lambda>ev. ev\<lparr>is_triggered := True, last_dt := get_time c\<rparr>) c)
               \<lparr>ordered_events := ordered_events c @ [h]\<rparr>"
  have 1: "event_call h c = (PyTrue, ?c1)" using assms by (simp add: event_call_def)
  have "is_triggered (events ?c1 h)" by (simp add: upd_event_def)
  from event_calls_pending[OF this, of k] 1 show ?thesis by simp
qed

lemma live_exec_action:
  "live h f c \<Longrightarrow> a \<noteq> CancelEvent h \<Longrightarrow> live h f (exec_action a c)"
  by (cases a)
     (auto simp: live_def schedule_once_def schedule_interval_def ClockEvent_init_def
        Let_def event_call_def upd_event_def cancel_def remove_event_def get_callback_def)

lemma live_exec_actions:
  "live h f c \<Longrightarrow> CancelEvent h \<notin> set acts \<Longrightarrow> live h f (exec_actions acts c)"
  unfolding exec_actions_def
proof (induction acts arbitrary: c)
  case Nil
  then show ?case by simp
next
  case (Cons a acts)
  then have "live h f (exec_action a c)" by (auto intro: live_exec_action)
  with Cons show ?case by simp
qed

lemma live_cancel_other: "live h f c \<Longrightarrow> e \<noteq> h \<Longrightarrow> live h f (cancel e c)"
  by (auto simp: live_def cancel_def upd_event_def remove_event_def Let_def)

lemma dispatch_entry_other:
  assumes "live h f c" and "never_cancels p h" and "entry_event en \<noteq> h"
  shows "live h f (snd (dispatch_entry p en c)) \<and>
         count_list (invoked_events (fst (dispatch_entry p en c))) h = 0"
proof -
  let ?e = "entry_event en"
  show ?thesis
  proof (cases "\<not> callback_cancelled (events c ?e)")
    case False
    with assms(1) show ?thesis by (simp add: dispatch_entry_def invoked_events_def)
  next
    case True
    show ?thesis
    proof (cases "get_callback (events c ?e)")
      case None
      with True assms(1,3) show ?thesis
        by (simp add: dispatch_entry_def Let_def invoked_events_def live_cancel_other)
    next
      case (Some g)
      obtain acts ret where pr: "p g (frametime c) c = (acts, ret)"
        by (cases "p g (frametime c) c")
      from assms(2) pr have "CancelEvent h \<notin> set acts"
        unfolding never_cancels_def by (metis fst_conv)
      from live_exec_actions[OF assms(1) this] have l: "live h f (exec_actions acts c)" .
      with True Some pr assms(3) show ?thesis
        by (simp add: dispatch_entry_def Let_def invoked_events_def live_cancel_other)
    qed
  qed
qed

lemma dispatch_entry_self:
  assumes "live h f c" and "entry_event en = h"
  shows "invoked_events (fst (dispatch_entry p en c)) = [h]"
  using assms
  by (simp add: dispatch_entry_def Let_def invoked_events_def live_def split: prod.splits)

lemma invoked_events_append:
  "invoked_events (tr @ tr') = invoked_events tr @ invoked_events tr'"
  by (simp add: invoked_events_def)

lemma dispatch_absent:
  assumes "filter (\<lambda>en. entry_event en = h) ens = []"
  shows "count_list (invoked_events (fst (dispatch p ens c))) h = 0"
proof -
  from assms have "h \<notin> entry_event ` set ens" by (auto simp: filter_empty_conv)
  with dispatch_invoked[of p ens c] show ?thesis by (auto simp: count_list_0_iff)
qed

lemma dispatch_once:
  assumes "filter (\<lambda>en. entry_event en = h) ens = [en0]" and "live h f c"
    and "never_cancels p h"
  shows "count_list (invoked_events (fst (dispatch p ens c))) h = 1"
  using assms(1,2)
proof (induction ens arbitrary: c)
  case Nil
  then show ?case by simp
next
  case (Cons en ens)
  obtain tr c1 where d: "dispatch_entry p en c = (tr, c1)" by (cases "dispatch_entry p en c")
  obtain tr' c2 where r: "dispatch p ens c1 = (tr', c2)" by (cases "dispatch p ens c1")
  have tr: "invoked_events (fst (dispatch p (en # ens) c)) =
              invoked_events tr @ invoked_events tr'"
    using d r by (simp add: invoked_events_append)
  show ?case
  proof (cases "entry_event en = h")
    case True
    with Cons.prems(1) have "filter (\<lambda>en. entry_event en = h) ens = []" by simp
    from dispatch_absent[OF this, of p c1] r
    have "count_list (invoked_events tr') h = 0" by simp
    moreover from dispatch_entry_self[OF Cons.prems(2) True, of p] d
    have "invoked_events tr = [h]" by simp
    ultimately show ?thesis using tr by simp
  next
    case False
    with Cons.prems(1) have f: "filter (\<lambda>en. entry_event en = h) ens = [en0]" by simp
    from dispatch_entry_other[OF Cons.prems(2) assms(3) False] d
    have l: "live h f c1" and z: "count_list (invoked_events tr) h = 0" by simp_all
    from Cons.IH[OF f l] r have "count_list (invoked_events tr') h = 1" by simp
    with z tr show ?thesis by simp
  qed
qed

lemma event_tick_live:
  assumes "get_callback (events c h) = Some f" and "next_event_time (events c h) \<le> t"
  shows "filter (\<lambda>en. entry_event en = h) (frame_callbacks (snd (event_tick t h c))) =
           filter (\<lambda>en. entry_event en = h) (frame_callbacks c) @
             [(last_event_time (events (snd (event_tick t h c)) h),
               - priority (events (snd (event_tick t h c)) h), h, h)] \<and>
         \<not> callback_cancelled (events (snd (event_tick t h c)) h) \<and>
         get_callback (events (snd (event_tick t h c)) h) = Some f \<and>
         counter (snd (event_tick t h c)) = counter c"
proof -
  have "get_callback (reschedule t (events c h)) = Some f"
    using assms(1) by (simp add: get_callback_def reschedule_def reschedule_with_def Let_def)
  with assms(2) show ?thesis
    by (simp add: event_tick_def upd_event_def remove_event_def Let_def
          add_event_to_frame_callbacks_def entry_event_def get_callback_def)
qed

lemma due_selection_queues_once:
  assumes "distinct (ordered_events c)" and "h \<in> set (ordered_events c)"
    and "frame_callbacks c = []" and "live h f c"
    and "next_event_time (events c h) \<le> current"
  shows "\<exists>en0. filter (\<lambda>en. entry_event en = h)
                 (frame_callbacks (due_selection now current c)) = [en0] \<and>
               live h f (due_selection now current c)"
proof -
  let ?c0 = "advance_time current (snd (sleep_until_next_event now c))"
  from pre_select_agree[of current now c] assms have
    d0: "distinct (ordered_events ?c0)" and h0: "h \<in> set (ordered_events ?c0)" and
    f0: "frame_callbacks ?c0 = []" and e0: "events ?c0 = events c" and
    t0: "last_tick ?c0 = current" and n0: "counter ?c0 = counter c" by simp_all
  from assms(4) have nc: "\<not> callback_cancelled (events c h)" and
    gc: "get_callback (events c h) = Some f" and al: "h < counter c" by (simp_all add: live_def)
  have due0: "next_event_time (events ?c0 h) \<le> last_tick ?c0" using assms(5) e0 t0 by simp
  from process_events_visit[OF d0 h0 due0] nc e0 t0 obtain c1 es2 where
    a: "agree_on h ?c0 c1" and n: "h \<notin> set es2" and
    p: "process_events ?c0 = process_loop es2 (snd (event_tick current h c1))" by auto
  let ?x = "snd (event_tick current h c1)"
  from a e0 n0 f0 have e1: "events c1 h = events c h" and n1: "counter c1 = counter c" and
    f1: "filter (\<lambda>en. entry_event en = h) (frame_callbacks c1) = []"
    by (simp_all add: agree_on_def)
  from event_tick_live[of c1 h f current] gc assms(5) e1 f1 n1 obtain en0 where
    x: "filter (\<lambda>en. entry_event en = h) (frame_callbacks ?x) = [en0]"
       "\<not> callback_cancelled (events ?x h)" "get_callback (events ?x h) = Some f"
       "counter ?x = counter c" by simp
  from process_loop_agree[OF n, of ?x] p
  have ag: "agree_on h ?x (due_selection now current c)" by (simp add: due_selection_def)
  from ag x(1) have 1: "filter (\<lambda>en. entry_event en = h)
                          (frame_callbacks (due_selection now current c)) = [en0]"
    by (simp add: agree_on_def)
  from ag x(2,3,4) al have 2: "live h f (due_selection now current c)"
    by (simp add: agree_on_def live_def)
  from 1 2 show ?thesis by blast
qed

lemma tick_invokes_once:
  assumes "distinct (ordered_events c)" and "h \<in> set (ordered_events c)"
    and "frame_callbacks c = []" and "live h f c"
    and "next_event_time (events c h) \<le> current" and "never_cancels p h"
  shows "count_list (invoked_events (fst (snd (tick p now current c)))) h = 1"
proof -
  let ?q = "due_selection now current c"
  from due_selection_queues_once[OF assms(1-5), of now] obtain en0 where
    f: "filter (\<lambda>en. entry_event en = h) (frame_callbacks ?q) = [en0]" and l: "live h f ?q"
    by blast
  have "filter (\<lambda>en. entry_event en = h) (sort (frame_callbacks ?q)) = [en0]"
    using f by (simp add: filter_sort)
  from dispatch_once[OF this l assms(6)]
  have 1: "count_list (invoked_events
             (fst (dispatch p (sort (frame_callbacks ?q)) ?q))) h = 1" .
  obtain tr c1 where d: "dispatch p (sort (frame_callbacks ?q)) ?q = (tr, c1)"
    by (cases "dispatch p (sort (frame_callbacks ?q)) ?q")
  then have "fst (snd (tick p now current c)) = tr"
    by (simp add: tick_due_selection process_event_callbacks_def)
  with 1 d show ?thesis by simp
qed

text \<open>
  What holds of repeated calls. An idle event that is not cancelled and whose callback is
  alive is called \<open>k + 1\<close> times. The first call returns \<open>True\<close>, makes the event
  pending and takes the clock's time as the baseline \<open>_last_dt\<close>; each later call
  returns \<open>None\<close> and changes nothing, so the state is the one after the first call
  and the event is in \<open>ordered_events\<close> once. The tick that finds the event due
  invokes its callback exactly once, provided no callback of that tick cancels it.
\<close>

lemma trigger_coalesces:
  assumes "\<not> is_triggered (events c h)" and "h \<notin> set (ordered_events c)"
    and "distinct (ordered_events c)" and "frame_callbacks c = []" and "live h f c"
    and "next_event_time (events c h) \<le> current" and "never_cancels p h"
  shows "fst (event_calls (Suc k) h c) = PyTrue # replicate k PyNone \<and>
         snd (event_calls (Suc k) h c) = snd (event_call h c) \<and>
         ordered_events (snd (event_calls (Suc k) h c)) = ordered_events c @ [h] \<and>
         last_dt (events (snd (event_calls (Suc k) h c)) h) = get_time c \<and>
         count_list
           (invoked_events (fst (snd (tick p now current (snd (event_calls (Suc k) h c)))))) h = 1"
proof -
  let ?c1 = "snd (event_call h c)"
  have c1: "?c1 = (upd_event h (\<lambda>ev. ev\<lparr>is_triggered := True, last_dt := get_time c\<rparr>) c)
               \<lparr>ordered_events := ordered_events c @ [h]\<rparr>"
    using assms(1) by (simp add: event_call_def)
  from event_calls_idle[OF assms(1), of k] have
    r: "fst (event_calls (Suc k) h c) = PyTrue # replicate k PyNone" and
    s: "snd (event_calls (Suc k) h c) = ?c1" by simp_all
  have d: "distinct (ordered_events ?c1)" using assms(2,3) by (simp add: c1)
  have m: "h \<in> set (ordered_events ?c1)" by (simp add: c1)
  have q: "frame_callbacks ?c1 = []" using assms(4) by (simp add: c1 upd_event_def)
  have l: "live h f ?c1"
    using assms(5) by (simp add: c1 upd_event_def live_def get_callback_def)
  have n: "next_event_time (events ?c1 h) \<le> current"
    using assms(6) by (simp add: c1 upd_event_def)
  from tick_invokes_once[OF d m q l n assms(7), of now]
  have "count_list (invoked_events (fst (snd (tick p now current ?c1)))) h = 1" .
  with r s show ?thesis by (simp add: c1 upd_event_def)
qed

lemma trigger_coalesces_example:
  "fst (event_calls (Suc 2) 0 clock_trigger) = PyTrue # replicate 2 PyNone \<and>
   ordered_events (snd (event_calls (Suc 2) 0 clock_trigger)) = ordered_events clock_trigger @ [0] \<and>
   count_list (invoked_events
     (fst (snd (tick idle_prog 0 1 (snd (event_calls (Suc 2) 0 clock_trigger)))))) 0 = 1"
proof -
  have 1: "\<not> is_triggered (events clock_trigger 0)" by code_simp
  have 2: "0 \<notin> set (ordered_events clock_trigger)" by code_simp
  have 3: "distinct (ordered_events clock_trigger)" by code_simp
  have 4: "frame_callbacks clock_trigger = []" by code_simp
  have 5: "live 0 7 clock_trigger" by code_simp
  have 6: "next_event_time (events clock_trigger 0) \<le> 1" by code_simp
  have 7: "never_cancels idle_prog 0" by (simp add: never_cancels_def idle_prog_def)
  from trigger_coalesces[OF 1 2 3 4 5 6 7, of 2 0] show ?thesis by blast
qed

text \<open>
  Claim C4 says that the one invocation that follows \<open>k\<close> calls receives the time
  elapsed since the baseline of the first call. An event with a delay of 5 fires at time
  5 and is idle; the clock ticks at time 6; the event is called three times (the calls
  return \<open>True\<close>, \<open>None\<close>, \<open>None\<close>, and the baseline is 6); the tick at time 8
  finds it not due, the tick at time 11 invokes it once. The callback is called with 3,
  the time since the previous tick; the time since the baseline, which
  \<open>ClockEvent.tick\<close> computes into \<open>_dt\<close>, is 5.
\<close>

theorem trigger_argument_is_frametime:
  "fst (ticks idle_prog [(0, 5), (5, 6)] clock_late) = [((5, - 1, 0, 0), 7, 5)] \<and>
   fst (event_calls 3 0 (snd (ticks idle_prog [(0, 5), (5, 6)] clock_late))) =
     [PyTrue, PyNone, PyNone] \<and>
   last_dt (events clock_retrigger 0) = 6 \<and>
   next_event_time (events clock_retrigger 0) = 10 \<and>
   fst (ticks idle_prog [(6, 8), (8, 11)] clock_retrigger) = [((10, - 1, 0, 0), 7, 3)] \<and>
   ev_dt (events (snd (ticks idle_prog [(6, 8), (8, 11)] clock_retrigger)) 0) = 5"
  by code_simp

section \<open>The states the interface reaches\<close>

text \<open>
  The theorems about a tick assume a pending list without duplicates and an empty frame
  queue. A new clock is in such a state, and scheduling, calling, cancelling and ticking
  keep it, for callbacks that call events that exist.
\<close>

lemma wf_init: "wf_clock (ClockBase_init mfps now cnt)"
  by (simp add: wf_clock_def ClockBase_init_def)

lemma wf_ClockEvent_init:
  "wf_clock c \<Longrightarrow> wf_clock (snd (ClockEvent_init lp cb tmo st prio trig c))"
  by (auto simp: wf_clock_def ClockEvent_init_def Let_def)

lemma wf_schedule_once: "wf_clock c \<Longrightarrow> wf_clock (snd (schedule_once f t p c))"
  by (auto simp: wf_clock_def schedule_once_def ClockEvent_init_def Let_def)

lemma wf_schedule_interval: "wf_clock c \<Longrightarrow> wf_clock (snd (schedule_interval f t p c))"
  by (auto simp: wf_clock_def schedule_interval_def ClockEvent_init_def Let_def)

lemma wf_event_call: "wf_clock c \<Longrightarrow> e < counter c \<Longrightarrow> wf_clock (snd (event_call e c))"
  by (auto simp: wf_clock_def event_call_def upd_event_def)

lemma wf_cancel: "wf_clock c \<Longrightarrow> wf_clock (cancel e c)"
  by (auto simp: wf_clock_def cancel_def upd_event_def remove_event_def Let_def)

lemma wf_event_tick: "wf_clock c \<Longrightarrow> wf_clock (snd (event_tick t e c))"
  by (auto simp: wf_clock_def event_tick_def upd_event_def remove_event_def Let_def
        add_event_to_frame_callbacks_def reschedule_def reschedule_with_def split: option.splits)

lemma wf_process_loop: "wf_clock c \<Longrightarrow> wf_clock (process_loop es c)"
  by (induction es arbitrary: c) (simp_all add: wf_event_tick)

lemma wf_sort_events: "wf_clock (sort_events c) = wf_clock c"
  by (simp add: wf_clock_def sort_events_def)

lemma wf_process_events: "wf_clock c \<Longrightarrow> wf_clock (process_events c)"
  by (simp add: process_events_def Let_def wf_process_loop wf_sort_events)

lemma counter_exec_action: "counter c \<le> counter (exec_action a c)"
  by (cases a)
     (simp_all add: schedule_once_def schedule_interval_def ClockEvent_init_def Let_def
        event_call_def upd_event_def cancel_def remove_event_def)

lemma wf_exec_actions:
  "wf_clock c \<Longrightarrow> \<forall>e. CallEvent e \<in> set acts \<longrightarrow> e < counter c \<Longrightarrow>
     wf_clock (exec_actions acts c)"
  unfolding exec_actions_def
proof (induction acts arbitrary: c)
  case Nil
  then show ?case by simp
next
  case (Cons a acts)
  have 1: "wf_clock (exec_action a c)"
  proof (cases a)
    case (CallEvent e)
    with Cons.prems show ?thesis by (simp add: wf_event_call)
  qed (use Cons.prems(1) in \<open>simp_all add: wf_schedule_once wf_schedule_interval wf_cancel\<close>)
  have 2: "\<forall>e. CallEvent e \<in> set acts \<longrightarrow> e < counter (exec_action a c)"
    using Cons.prems(2) counter_exec_action[of c a] by fastforce
  from Cons.IH[OF 1 2] show ?case by simp
qed

lemma wf_dispatch_entry:
  assumes "wf_clock c" and "calls_allocated p"
  shows "wf_clock (snd (dispatch_entry p en c))"
proof -
  have "wf_clock (exec_actions (fst (p f dt c)) c)" for f dt
    using assms by (intro wf_exec_actions) (auto simp: calls_allocated_def)
  then have "p f dt c = (acts, ret) \<Longrightarrow> wf_clock (exec_actions acts c)" for f dt acts ret
    by (metis fst_conv)
  with assms(1) show ?thesis
    by (simp add: dispatch_entry_def Let_def wf_cancel split: option.splits prod.splits)
qed

lemma wf_dispatch:
  "wf_clock c \<Longrightarrow> calls_allocated p \<Longrightarrow> wf_clock (snd (dispatch p ens c))"
proof (induction ens arbitrary: c)
  case Nil
  then show ?case by simp
next
  case (Cons en ens)
  obtain tr c1 where d: "dispatch_entry p en c = (tr, c1)" by (cases "dispatch_entry p en c")
  obtain tr' c2 where r: "dispatch p ens c1 = (tr', c2)" by (cases "dispatch p ens c1")
  from wf_dispatch_entry[OF Cons.prems, of en] d have "wf_clock c1" by simp
  from Cons.IH[OF this Cons.prems(2)] r have "wf_clock c2" by simp
  with d r show ?case by simp
qed

lemma wf_pre_select:
  "wf_clock (advance_time current (snd (sleep_until_next_event now c))) = wf_clock c"
  using pre_select_agree[of current now c] by (simp add: wf_clock_def)

lemma wf_tick:
  assumes "wf_clock c" and "calls_allocated p"
  shows "wf_clock (snd (snd (tick p now current c))) \<and>
         frame_callbacks (snd (snd (tick p now current c))) = []"
proof -
  let ?q = "due_selection now current c"
  have q: "wf_clock ?q"
    unfolding due_selection_def using assms(1) by (simp add: wf_process_events wf_pre_select)
  obtain tr c1 where d: "dispatch p (sort (frame_callbacks ?q)) ?q = (tr, c1)"
    by (cases "dispatch p (sort (frame_callbacks ?q)) ?q")
  from wf_dispatch[OF q assms(2), of "sort (frame_callbacks ?q)"] d have "wf_clock c1" by simp
  with d show ?thesis
    by (simp add: tick_due_selection process_event_callbacks_def wf_clock_def)
qed

end
